theory Spec2Isabelle
  imports Main "HOL-Library.Multiset" "HOL-Library.Char_ord" "HOL-Library.List_Lexorder"
    "HOL-Library.AList"
begin

section \<open>Strings as the generator uses them\<close>

text \<open>
  Text is a \<^typ>\<open>string\<close>, one \<^typ>\<open>char\<close> per code unit. The source only
  searches, cuts and joins text, so the string methods it calls are modelled on lists.
  Case conversion is modelled on the ASCII letters; every other character is left as it is.
\<close>

definition toUpperChar :: "char \<Rightarrow> char" where
  "toUpperChar c =
     (let n = (of_char c :: nat) in if 97 \<le> n \<and> n \<le> 122 then char_of (n - 32) else c)"

definition toLowerChar :: "char \<Rightarrow> char" where
  "toLowerChar c =
     (let n = (of_char c :: nat) in if 65 \<le> n \<and> n \<le> 90 then char_of (n + 32) else c)"

definition toUpperCase :: "string \<Rightarrow> string" where
  "toUpperCase s = map toUpperChar s"

definition toLowerCase :: "string \<Rightarrow> string" where
  "toLowerCase s = map toLowerChar s"

text \<open>\<^verbatim>\<open>s.startsWith(p)\<close> and \<^verbatim>\<open>s.endsWith(p)\<close>.\<close>

definition startsWith :: "string \<Rightarrow> string \<Rightarrow> bool" where
  "startsWith s p = (take (length p) s = p)"

definition endsWith :: "string \<Rightarrow> string \<Rightarrow> bool" where
  "endsWith s p = (length p \<le> length s \<and> drop (length s - length p) s = p)"

text \<open>
  \<^verbatim>\<open>s.indexOf(p)\<close>: the position of the first occurrence of \<open>p\<close> in \<open>s\<close>,
  or \<open>-1\<close> when there is none.
\<close>

fun indexOf :: "string \<Rightarrow> string \<Rightarrow> int" where
  "indexOf [] p = (if p = [] then 0 else - 1)"
| "indexOf (c # cs) p =
     (if startsWith (c # cs) p then 0
      else (let r = indexOf cs p in if r = - 1 then - 1 else r + 1))"

text \<open>
  \<^verbatim>\<open>s.slice(a, b)\<close> and \<^verbatim>\<open>s.slice(a)\<close>: a negative index counts from the end,
  both indices are clamped to the text, and an empty range gives the empty text.
\<close>

definition sliceIndex :: "nat \<Rightarrow> int \<Rightarrow> nat" where
  "sliceIndex n a = (if a < 0 then nat (max (int n + a) 0) else min (nat a) n)"

definition slice :: "string \<Rightarrow> int \<Rightarrow> int \<Rightarrow> string" where
  "slice s a b =
     (let from = sliceIndex (length s) a; to = sliceIndex (length s) b
      in take (to - from) (drop from s))"

definition sliceFrom :: "string \<Rightarrow> int \<Rightarrow> string" where
  "sliceFrom s a = drop (sliceIndex (length s) a) s"

text \<open>
  \<^verbatim>\<open>s.replace(p, r)\<close> with a text pattern: only the first occurrence is replaced.
  The replacement texts of the source contain no \<^verbatim>\<open>$\<close> pattern that would be expanded.
\<close>

definition replace :: "string \<Rightarrow> string \<Rightarrow> string \<Rightarrow> string" where
  "replace s p r =
     (let i = indexOf s p
      in if i = - 1 then s else take (nat i) s @ r @ drop (nat i + length p) s)"

text \<open>\<^verbatim>\<open>s.split(c)\<close> for a separator of one character, and \<^verbatim>\<open>xs.join(sep)\<close>.\<close>

fun split :: "string \<Rightarrow> char \<Rightarrow> string list" where
  "split [] sep = [[]]"
| "split (c # cs) sep =
     (if c = sep then [] # split cs sep
      else (case split cs sep of [] \<Rightarrow> [[c]] | w # ws \<Rightarrow> (c # w) # ws))"

fun join :: "string list \<Rightarrow> string \<Rightarrow> string" where
  "join [] sep = []"
| "join [x] sep = x"
| "join (x # y # ys) sep = x @ sep @ join (y # ys) sep"

text \<open>A text is truthy when it is present and not empty.\<close>

definition truthy :: "string option \<Rightarrow> bool" where
  "truthy x = (case x of None \<Rightarrow> False | Some s \<Rightarrow> s \<noteq> [])"

section \<open>Naming utilities\<close>

text \<open>
  \<^verbatim>\<open>/[-_](.)/g\<close> with an upper-casing callback: scanning from the left, a hyphen or
  underscore followed by a character other than a line terminator is replaced, together
  with that character, by the character in upper case; the scan goes on after the match.
\<close>

definition isLineTerminator :: "char \<Rightarrow> bool" where
  "isLineTerminator c = (c = CHR 0x0A \<or> c = CHR 0x0D)"

fun camelReplace :: "string \<Rightarrow> string" where
  "camelReplace (c # d # cs) =
     (if (c = CHR ''-'' \<or> c = CHR ''_'') \<and> \<not> isLineTerminator d
      then toUpperChar d # camelReplace cs
      else c # camelReplace (d # cs))"
| "camelReplace cs = cs"

text \<open>\<^verbatim>\<open>/^(.)/\<close> with a callback applied to the first character.\<close>

definition mapFirst :: "(char \<Rightarrow> char) \<Rightarrow> string \<Rightarrow> string" where
  "mapFirst f s = (case s of [] \<Rightarrow> [] | c # cs \<Rightarrow> (if isLineTerminator c then c # cs else f c # cs))"

definition toCamelCase :: "string \<Rightarrow> string" where
  "toCamelCase str = mapFirst toLowerChar (camelReplace str)"

text \<open>\<^verbatim>\<open>camel.charAt(0).toUpperCase() + camel.slice(1)\<close>.\<close>

definition toPascalCase :: "string \<Rightarrow> string" where
  "toPascalCase str = (let camel = toCamelCase str in toUpperCase (take 1 camel) @ sliceFrom camel 1)"

text \<open>
  The loop of \<^verbatim>\<open>removeTypeSuffix\<close> returns at the first suffix the name ends with;
  the cut is \<^verbatim>\<open>name.slice(0, -suffix.length)\<close>.
\<close>

fun removeTypeSuffix :: "string \<Rightarrow> string list \<Rightarrow> string" where
  "removeTypeSuffix name [] = name"
| "removeTypeSuffix name (suffix # suffixes) =
     (if endsWith name suffix then slice name 0 (- int (length suffix))
      else removeTypeSuffix name suffixes)"

definition cleanTypeName :: "string \<Rightarrow> string list \<Rightarrow> string" where
  "cleanTypeName name suffixesToRemove =
     (let parts = split name (CHR ''.'');
          cleanName = last parts;
          cleanName = toPascalCase cleanName
      in removeTypeSuffix cleanName suffixesToRemove)"

text \<open>
  \<^verbatim>\<open>/\{([^}]+)\}/g\<close>: an opening brace, at least one character other than a closing
  brace, and a closing brace; the callback gives \<^verbatim>\<open>/By\<close> and the parameter in Pascal
  case. The scan goes on after the closing brace.
\<close>

function braceReplace :: "string \<Rightarrow> string" where
  "braceReplace [] = []"
| "braceReplace (c # cs) =
     (if c = CHR ''{'' \<and> takeWhile (\<lambda>x. x \<noteq> CHR ''}'') cs \<noteq> []
           \<and> dropWhile (\<lambda>x. x \<noteq> CHR ''}'') cs \<noteq> []
      then ''/By'' @ toPascalCase (takeWhile (\<lambda>x. x \<noteq> CHR ''}'') cs)
             @ braceReplace (tl (dropWhile (\<lambda>x. x \<noteq> CHR ''}'') cs))
      else c # braceReplace cs)"
  by pat_completeness auto
termination
proof (relation "measure length")
  fix c :: char and cs :: string
  have "length (dropWhile (\<lambda>x. x \<noteq> CHR ''}'') cs) \<le> length cs"
    by (rule length_dropWhile_le)
  then have "length (tl (dropWhile (\<lambda>x. x \<noteq> CHR ''}'') cs)) \<le> length cs"
    by simp
  then show "(tl (dropWhile (\<lambda>x. x \<noteq> CHR ''}'') cs), c # cs) \<in> measure length"
    by simp
qed simp_all

text \<open>
  \<^verbatim>\<open>/:([a-zA-Z_][a-zA-Z0-9_]*)/g\<close>: a colon followed by an identifier, taken as
  long as it goes.
\<close>

definition isAlpha :: "char \<Rightarrow> bool" where
  "isAlpha c = (let n = (of_char c :: nat) in (65 \<le> n \<and> n \<le> 90) \<or> (97 \<le> n \<and> n \<le> 122))"

definition isDigit :: "char \<Rightarrow> bool" where
  "isDigit c = (let n = (of_char c :: nat) in 48 \<le> n \<and> n \<le> 57)"

definition isIdentStart :: "char \<Rightarrow> bool" where
  "isIdentStart c = (isAlpha c \<or> c = CHR ''_'')"

definition isIdentChar :: "char \<Rightarrow> bool" where
  "isIdentChar c = (isAlpha c \<or> isDigit c \<or> c = CHR ''_'')"

function colonReplace :: "string \<Rightarrow> string" where
  "colonReplace [] = []"
| "colonReplace (c # cs) =
     (if c = CHR '':'' \<and> cs \<noteq> [] \<and> isIdentStart (hd cs)
      then ''/By'' @ toPascalCase (takeWhile isIdentChar cs)
             @ colonReplace (dropWhile isIdentChar cs)
      else c # colonReplace cs)"
  by pat_completeness auto
termination
proof (relation "measure length")
  fix c :: char and cs :: string
  have "length (dropWhile isIdentChar cs) \<le> length cs"
    by (rule length_dropWhile_le)
  then show "(dropWhile isIdentChar cs, c # cs) \<in> measure length"
    by simp
qed simp_all

definition generateFunctionName :: "string \<Rightarrow> string \<Rightarrow> string" where
  "generateFunctionName method path =
     (let processedPath = colonReplace (braceReplace path);
          pathParts = join (map toPascalCase (filter (\<lambda>part. part \<noteq> []) (split processedPath (CHR ''/'')))) []
      in toLowerCase method @ pathParts)"

fun cleanPathPrefix :: "string \<Rightarrow> string list \<Rightarrow> string" where
  "cleanPathPrefix path [] = path"
| "cleanPathPrefix path (prefix # prefixes) =
     (if startsWith path prefix
      then (let result = sliceFrom path (int (length prefix))
            in if startsWith result ''/'' then result else ''/'' @ result)
      else cleanPathPrefix path prefixes)"

definition tagToDirectoryName :: "string \<Rightarrow> string" where
  "tagToDirectoryName tag = toCamelCase tag"

text \<open>
  \<^verbatim>\<open>loadConfig\<close> sorts the configured prefixes by descending length; the sort of the
  language is stable, as insertion by key is.
\<close>

definition sortPrefixes :: "string list \<Rightarrow> string list" where
  "sortPrefixes pathPrefixFilter = sort_key (\<lambda>p. - int (length p)) pathPrefixFilter"

text \<open>
  To state what \<^verbatim>\<open>generateFunctionName\<close> does on a path, a path is read as its
  segments, the texts between its slashes: a literal segment, a parameter in braces, or a
  parameter after a colon. A name, of a literal segment or of a parameter, is read as its
  words: a first word, and further words each with the hyphen or underscore that stands
  before it. A path that begins or ends with a slash has an empty first or last segment.
\<close>

datatype wordedName = WordedName string "(char \<times> string) list"

fun nameText :: "wordedName \<Rightarrow> string" where
  "nameText (WordedName w further) = w @ concat (map (\<lambda>(sp, x). sp # x) further)"

fun nameWords :: "wordedName \<Rightarrow> string list" where
  "nameWords (WordedName w further) = w # map snd further"

datatype segment = Literal wordedName | BraceParam wordedName | ColonParam wordedName



text \<open>
  Pascal case, said of the words of a name: every word with its first letter in upper
  case, the words put together. The token of a literal segment is its name in Pascal
  case; the token of a parameter is \<^verbatim>\<open>By\<close> and its name in Pascal case.
\<close>

definition capitalize :: "string \<Rightarrow> string" where
  "capitalize w = (case w of [] \<Rightarrow> [] | c # cs \<Rightarrow> toUpperChar c # cs)"

definition pascalWords :: "string list \<Rightarrow> string" where
  "pascalWords ws = concat (map capitalize ws)"


text \<open>
  The names the statement is about. Every further word is not empty, and a separator is a
  hyphen or an underscore. A word of a literal segment has no separator, line break, slash,
  opening brace or colon; a word of a parameter in braces no separator, line break, slash,
  colon or closing brace, and the name is not empty. The name of a parameter after a colon
  is an identifier: its words are of letters and digits, joined by underscores, and it does
  not begin with a digit.
\<close>

definition isSeparator :: "char \<Rightarrow> bool" where
  "isSeparator c = (c = CHR ''-'' \<or> c = CHR ''_'')"








fun pathPart :: "segment \<Rightarrow> string" where
  "pathPart (Literal n) = nameText n"
| "pathPart (BraceParam n) = ''By'' @ pascalWords (nameWords n)"
| "pathPart (ColonParam n) = ''By'' @ pascalWords (nameWords n)"






section \<open>The function file and its generated region\<close>

definition AUTO_GEN_START :: string where
  "AUTO_GEN_START = ''// --- AUTO GENERATED START ---''"

definition AUTO_GEN_END :: string where
  "AUTO_GEN_END = ''// --- AUTO GENERATED END ---''"

definition mergeWithExisting :: "string \<Rightarrow> string \<Rightarrow> string" where
  "mergeWithExisting existingContent newContent =
     (let existingStartIndex = indexOf existingContent AUTO_GEN_START;
          existingEndIndex = indexOf existingContent AUTO_GEN_END
      in if existingStartIndex = - 1 \<or> existingEndIndex = - 1 then newContent
         else
           (let newStartIndex = indexOf newContent AUTO_GEN_START;
                newEndIndex = indexOf newContent AUTO_GEN_END
            in if newStartIndex = - 1 \<or> newEndIndex = - 1 then newContent
               else
                 (let newAutoGenPart =
                        slice newContent newStartIndex (newEndIndex + int (length AUTO_GEN_END));
                      beforeAutoGen = slice existingContent 0 existingStartIndex;
                      afterAutoGen =
                        sliceFrom existingContent (existingEndIndex + int (length AUTO_GEN_END))
                  in beforeAutoGen @ newAutoGenPart @ afterAutoGen)))"

text \<open>
  Where a text occurs in another: \<open>occursAt s p i\<close> says that \<open>p\<close> stands in \<open>s\<close> at
  position \<open>i\<close>, \<open>firstAt\<close> that this is its first occurrence, and \<open>contains\<close> that
  there is one (\<^verbatim>\<open>s.includes(p)\<close>).
\<close>

definition occursAt :: "string \<Rightarrow> string \<Rightarrow> nat \<Rightarrow> bool" where
  "occursAt s p i = (i + length p \<le> length s \<and> take (length p) (drop i s) = p)"

definition firstAt :: "string \<Rightarrow> string \<Rightarrow> nat \<Rightarrow> bool" where
  "firstAt s p i = (occursAt s p i \<and> (\<forall>j\<in>{0..<i}. \<not> occursAt s p j))"

definition contains :: "string \<Rightarrow> string \<Rightarrow> bool" where
  "contains s p = (\<exists>i\<in>{0..length s}. occursAt s p i)"

text \<open>A prior function file with a function written by hand after the generated region, and a newly generated text.\<close>

definition newline :: string where
  "newline = [CHR 0x0A]"

definition priorFileExample :: string where
  "priorFileExample =
     ''// notes kept by hand'' @ newline @ AUTO_GEN_START @ newline
     @ ''export const getA = () => {}'' @ newline @ AUTO_GEN_END @ newline
     @ ''export const mine = () => 1'' @ newline"

definition newFileExample :: string where
  "newFileExample =
     ''// a new header'' @ newline @ AUTO_GEN_START @ newline
     @ ''export const getB = () => {}'' @ newline @ AUTO_GEN_END @ newline"


section \<open>The data model\<close>

text \<open>
  A schema is a JSON object; each optional field is an \<^typ>\<open>'a option\<close>. The
  \<^verbatim>\<open>properties\<close> of a schema are the list of its entries, in the order in which
  \<^verbatim>\<open>Object.entries\<close> yields them. A field that is a text counts as set where the
  source tests it for truth only when it is not empty; an array or an object counts as set
  whenever it is present. Enumerated numbers are integers.
\<close>

datatype enumValue = EnumString string | EnumNumber int

datatype 'a boolOr = IsBool bool | IsSchema 'a

datatype SchemaObject = SchemaObject
  (ref: "string option")
  (type: "string option")
  (description: "string option")
  (properties: "(string \<times> SchemaObject) list option")
  (items: "SchemaObject option")
  (required: "string list option")
  (enum: "enumValue list option")
  (allOf: "SchemaObject list option")
  (additionalProperties: "SchemaObject boolOr option")

record Parameter =
  param_name :: string
  param_in :: string
  param_description :: "string option"
  param_required :: "bool option"
  param_type :: "string option"
  param_schema :: "SchemaObject option"
  param_items :: "SchemaObject option"
  param_enum :: "enumValue list option"

record ResponseObject =
  response_description :: string
  response_schema :: "SchemaObject option"

record Operation =
  op_tags :: "string list option"
  op_summary :: "string option"
  op_parameters :: "Parameter list option"
  op_responses :: "(string \<times> ResponseObject) list"

record Config =
  cfg_input :: string
  cfg_output :: string
  requestStyle :: string
  requestClient :: string
  requestImport :: string
  pathPrefixFilter :: "string list"
  typeNameSuffixFilter :: "string list"
  excludeFields :: "string list"
  unwrapResponseField :: "string option"
  tagMapping :: "(string \<times> string) list"
  includeTags :: "string list"
  excludeTags :: "string list"

record ParsedAPI =
  api_path :: string
  api_cleanPath :: string
  api_method :: string
  api_tag :: string
  api_functionName :: string
  api_summary :: "string option"
  api_paramsTypeName :: "string option"
  api_bodyTypeName :: "string option"
  api_responseTypeName :: "string option"
  api_pathParams :: "Parameter list"
  api_queryParams :: "Parameter list"
  api_bodySchema :: "SchemaObject option"
  api_responseSchema :: "SchemaObject option"

record ParsedType =
  originalName :: string
  typeName :: string
  typeSchema :: SchemaObject

definition defaultConfig :: Config where
  "defaultConfig = \<lparr>
     cfg_input = ''./swagger.json'', cfg_output = ''./src/api'', requestStyle = ''chain'',
     requestClient = ''requestClient'', requestImport = ''@/utils/request'',
     pathPrefixFilter = [''/api/v1'', ''/api''],
     typeNameSuffixFilter = [''Request'', ''Response''],
     excludeFields = [], unwrapResponseField = Some ''data'', tagMapping = [],
     includeTags = [], excludeTags = [] \<rparr>"

text \<open>A schema with no field set, to write schemas down by their set fields.\<close>

definition emptySchema :: SchemaObject where
  "emptySchema = SchemaObject None None None None None None None None None"

definition refSchema :: "string \<Rightarrow> SchemaObject" where
  "refSchema r = SchemaObject (Some r) None None None None None None None None"

definition typedSchema :: "string \<Rightarrow> SchemaObject" where
  "typedSchema t = SchemaObject None (Some t) None None None None None None None"

definition objectSchema :: "(string \<times> SchemaObject) list \<Rightarrow> SchemaObject" where
  "objectSchema props = SchemaObject None (Some ''object'') None (Some props) None None None None None"

definition arraySchema :: "SchemaObject \<Rightarrow> SchemaObject" where
  "arraySchema item = SchemaObject None (Some ''array'') None None (Some item) None None None None"

section \<open>The type emitter\<close>

definition apostrophe :: string where
  "apostrophe = [CHR 0x27]"

text \<open>Decimal rendering of an integer, as a number is joined into a text.\<close>

definition digitChar :: "nat \<Rightarrow> char" where
  "digitChar d = char_of (48 + d)"

function showNat :: "nat \<Rightarrow> string" where
  "showNat n = (if n < 10 then [digitChar n] else showNat (n div 10) @ [digitChar (n mod 10)])"
  by pat_completeness auto
termination
  by (relation "measure id") auto

definition showInt :: "int \<Rightarrow> string" where
  "showInt i = (if i < 0 then ''-'' @ showNat (nat (- i)) else showNat (nat i))"

text \<open>\<^verbatim>\<open>/^[a-zA-Z_$][a-zA-Z0-9_$]*$/\<close>.\<close>

definition isValidIdentifier :: "string \<Rightarrow> bool" where
  "isValidIdentifier nm =
     (case nm of [] \<Rightarrow> False
      | c # cs \<Rightarrow> (isIdentStart c \<or> c = CHR ''$'') \<and> list_all (\<lambda>x. isIdentChar x \<or> x = CHR ''$'') cs)"

definition formatPropertyName :: "string \<Rightarrow> string" where
  "formatPropertyName nm = (if isValidIdentifier nm then nm else apostrophe @ nm @ apostrophe)"

definition extractRefName :: "string \<Rightarrow> string" where
  "extractRefName r =
     (if indexOf r ''#/components/schemas/'' \<noteq> - 1 then replace r ''#/components/schemas/'' []
      else replace r ''#/definitions/'' [])"

definition enumLiteral :: "enumValue \<Rightarrow> string" where
  "enumLiteral v = (case v of EnumString s \<Rightarrow> apostrophe @ s @ apostrophe | EnumNumber n \<Rightarrow> showInt n)"

fun schemaToTsType :: "SchemaObject \<Rightarrow> Config \<Rightarrow> string" where
  "schemaToTsType (SchemaObject rf ty ds props its req en ao ap) config =
     (if truthy rf then cleanTypeName (extractRefName (the rf)) (typeNameSuffixFilter config)
      else case ao of
        Some members \<Rightarrow> join (map (\<lambda>s. schemaToTsType s config) members) '' & ''
      | None \<Rightarrow>
         (case en of
            Some values \<Rightarrow> join (map enumLiteral values) '' | ''
          | None \<Rightarrow>
             (if ty = Some ''string'' then ''string''
              else if ty = Some ''integer'' \<or> ty = Some ''number'' then ''number''
              else if ty = Some ''boolean'' then ''boolean''
              else if ty = Some ''array'' then
                (case its of
                   Some item \<Rightarrow> schemaToTsType item config @ ''[]''
                 | None \<Rightarrow> ''unknown[]'')
              else if ty = Some ''object'' then
                (case props of
                   Some entries \<Rightarrow>
                     ''{ '' @ join (map (\<lambda>(k, v).
                          k @ (if k \<in> set (case req of None \<Rightarrow> [] | Some r \<Rightarrow> r) then [] else ''?'')
                            @ '': '' @ schemaToTsType v config) entries) ''; '' @ '' }''
                 | None \<Rightarrow>
                    (case ap of
                       Some (IsBool b) \<Rightarrow> ''Record<string, unknown>''
                     | Some (IsSchema a) \<Rightarrow> ''Record<string, '' @ schemaToTsType a config @ ''>''
                     | None \<Rightarrow> ''Record<string, unknown>''))
              else ''unknown'')))"

definition generateProperty :: "string \<Rightarrow> SchemaObject \<Rightarrow> bool \<Rightarrow> Config \<Rightarrow> string" where
  "generateProperty nm schema isRequired config =
     (let propName = formatPropertyName nm;
          optional = (if isRequired then [] else ''?'');
          tsType = schemaToTsType schema config
      in (if truthy (description schema)
          then ''/** '' @ the (description schema) @ '' */'' @ newline @ ''  '' else [])
         @ propName @ optional @ '': '' @ tsType)"

text \<open>
  The loop over the entries of an object that skips the excluded fields and pushes one
  indented line for every other property.
\<close>

definition propertyLines :: "(string \<times> SchemaObject) list \<Rightarrow> string list \<Rightarrow> Config \<Rightarrow> string list" where
  "propertyLines entries requiredNames config =
     map (\<lambda>(propName, propSchema).
            ''  '' @ generateProperty propName propSchema (propName \<in> set requiredNames) config)
       (filter (\<lambda>(propName, propSchema). propName \<notin> set (excludeFields config)) entries)"

text \<open>
  \<^verbatim>\<open>Object.assign(mergedProps, item.properties)\<close>: a name already present keeps its
  place and takes the new schema, a new name is added at the end.
\<close>

definition assignProps :: "(string \<times> SchemaObject) list \<Rightarrow> (string \<times> SchemaObject) list
    \<Rightarrow> (string \<times> SchemaObject) list" where
  "assignProps target source = foldl (\<lambda>m (k, v). AList.update k v m) target source"

definition generateTypeDefinition :: "string \<Rightarrow> SchemaObject \<Rightarrow> Config \<Rightarrow> string" where
  "generateTypeDefinition nm schema config =
     (let docLines = (if truthy (description schema)
                      then [''/** '' @ the (description schema) @ '' */''] else [])
      in case allOf schema of
        Some members \<Rightarrow>
          (let extendsTypes =
                 map (\<lambda>item. cleanTypeName (extractRefName (the (ref item))) (typeNameSuffixFilter config))
                   (filter (\<lambda>item. truthy (ref item)) members);
               mergedProps =
                 foldl (\<lambda>m item. case properties item of Some entries \<Rightarrow> assignProps m entries | None \<Rightarrow> m)
                   [] members;
               mergedRequired =
                 concat (map (\<lambda>item. case required item of Some r \<Rightarrow> r | None \<Rightarrow> []) members)
           in if extendsTypes \<noteq> [] \<and> mergedProps = []
              then join (docLines @ [''export type '' @ nm @ '' = '' @ join extendsTypes '' & '']) newline
              else join (docLines
                     @ [''export interface '' @ nm
                          @ (if extendsTypes \<noteq> [] then '' extends '' @ join extendsTypes '', '' else [])
                          @ '' {'']
                     @ propertyLines mergedProps mergedRequired config
                     @ [''}'']) newline)
      | None \<Rightarrow>
         (case enum schema of
            Some values \<Rightarrow>
              join (docLines @ [''export type '' @ nm @ '' = '' @ join (map enumLiteral values) '' | '']) newline
          | None \<Rightarrow>
             (if type schema = Some ''object'' \<or> properties schema \<noteq> None
              then join (docLines
                     @ [''export interface '' @ nm @ '' {'']
                     @ (case properties schema of
                          Some entries \<Rightarrow>
                            propertyLines entries (case required schema of Some r \<Rightarrow> r | None \<Rightarrow> []) config
                        | None \<Rightarrow> [])
                     @ (case additionalProperties schema of
                          Some (IsBool b) \<Rightarrow> (if b then [''  [key: string]: unknown''] else [])
                        | Some (IsSchema a) \<Rightarrow> [''  [key: string]: '' @ schemaToTsType a config]
                        | None \<Rightarrow> [])
                     @ [''}'']) newline
              else join (docLines @ [''export type '' @ nm @ '' = '' @ schemaToTsType schema config]) newline)))"

definition parameterToTsType :: "Parameter \<Rightarrow> string" where
  "parameterToTsType param =
     (case param_enum param of
        Some values \<Rightarrow> join (map enumLiteral values) '' | ''
      | None \<Rightarrow>
         (if param_type param = Some ''string'' then ''string''
          else if param_type param = Some ''integer'' \<or> param_type param = Some ''number'' then ''number''
          else if param_type param = Some ''boolean'' then ''boolean''
          else if param_type param = Some ''array'' then
            (if param_items param \<noteq> None then ''string[]'' else ''unknown[]'')
          else ''unknown''))"

definition generateQueryParamsType :: "string \<Rightarrow> Parameter list \<Rightarrow> Config \<Rightarrow> string" where
  "generateQueryParamsType nm params config =
     join ([''export interface '' @ nm @ '' {'']
       @ concat (map (\<lambda>param.
              (if truthy (param_description param)
               then [''  /** '' @ the (param_description param) @ '' */''] else [])
              @ [''  '' @ formatPropertyName (param_name param)
                   @ (if param_required param = Some True then [] else ''?'')
                   @ '': '' @ parameterToTsType param])
           (filter (\<lambda>param. param_name param \<noteq> [] \<and> param_name param \<noteq> ''-''
                            \<and> param_name param \<notin> set (excludeFields config)) params))
       @ [''}'']) newline"

text \<open>
  The map from display name to parsed type of \<^verbatim>\<open>generateTypesFile\<close>, kept in the
  order of insertion: a type is entered only when its name is not in the map yet.
\<close>

fun buildTypeMap :: "ParsedType list \<Rightarrow> (string \<times> ParsedType) list \<Rightarrow> (string \<times> ParsedType) list" where
  "buildTypeMap [] typeMap = typeMap"
| "buildTypeMap (t # ts) typeMap =
     buildTypeMap ts
       (if map_of typeMap (typeName t) = None then typeMap @ [(typeName t, t)] else typeMap)"

definition typesFileHeader :: "string list" where
  "typesFileHeader =
     [''/**'',
      '' * '' @ [CHR 0xE6, CHR 0xAD, CHR 0xA4, CHR 0xE6, CHR 0x96, CHR 0x87, CHR 0xE4, CHR 0xBB, CHR 0xB6,
                CHR 0xE7, CHR 0x94, CHR 0xB1]
        @ '' swagger-typegen ''
        @ [CHR 0xE8, CHR 0x87, CHR 0xAA, CHR 0xE5, CHR 0x8A, CHR 0xA8, CHR 0xE7, CHR 0x94, CHR 0x9F,
           CHR 0xE6, CHR 0x88, CHR 0x90, CHR 0xEF, CHR 0xBC, CHR 0x8C, CHR 0xE8, CHR 0xAF, CHR 0xB7,
           CHR 0xE5, CHR 0x8B, CHR 0xBF, CHR 0xE6, CHR 0x89, CHR 0x8B, CHR 0xE5, CHR 0x8A, CHR 0xA8,
           CHR 0xE4, CHR 0xBF, CHR 0xAE, CHR 0xE6, CHR 0x94, CHR 0xB9],
      '' */'',
      []]"

text \<open>The second loop of \<^verbatim>\<open>generateTypesFile\<close>: a parameters type for each operation with query parameters.\<close>

definition queryParamsBlocks :: "ParsedAPI list \<Rightarrow> Config \<Rightarrow> string list" where
  "queryParamsBlocks apis config =
     concat (map (\<lambda>api.
            [generateQueryParamsType (the (api_paramsTypeName api)) (api_queryParams api) config, []])
         (filter (\<lambda>api. api_queryParams api \<noteq> [] \<and> truthy (api_paramsTypeName api)) apis))"

definition generateTypesFile :: "ParsedType list \<Rightarrow> ParsedAPI list \<Rightarrow> Config \<Rightarrow> string" where
  "generateTypesFile types apis config =
     (let typeMap = buildTypeMap types []
      in join (typesFileHeader
           @ concat (map (\<lambda>(k, t). [generateTypeDefinition (typeName t) (typeSchema t) config, []]) typeMap)
           @ queryParamsBlocks apis config)
          newline)"


text \<open>Two parsed types with different original names and one display name.\<close>

definition itemA :: ParsedType where
  "itemA = \<lparr>originalName = ''a.Item'', typeName = cleanTypeName ''a.Item'' [],
             typeSchema = typedSchema ''string''\<rparr>"

definition itemB :: ParsedType where
  "itemB = \<lparr>originalName = ''b.Item'', typeName = cleanTypeName ''b.Item'' [],
             typeSchema = typedSchema ''number''\<rparr>"

text \<open>A configuration that excludes the field \<^verbatim>\<open>token\<close>, and a schema with a nested object.\<close>

definition excludeTokenConfig :: Config where
  "excludeTokenConfig = defaultConfig\<lparr>excludeFields := [''token'']\<rparr>"

definition deviceSchema :: SchemaObject where
  "deviceSchema = objectSchema [(''token'', typedSchema ''string''), (''id'', typedSchema ''integer'')]"

definition loginSchema :: SchemaObject where
  "loginSchema = objectSchema [(''token'', typedSchema ''string''), (''device'', deviceSchema)]"


section \<open>The function emitter\<close>

definition BUILTIN_TYPES :: "string list" where
  "BUILTIN_TYPES =
     [''unknown'', ''any'', ''void'', ''never'', ''string'', ''number'', ''boolean'',
      ''null'', ''undefined'', ''object'', ''symbol'', ''bigint'',
      ''Record'', ''Partial'', ''Required'', ''Readonly'', ''Pick'', ''Omit'', ''Array'']"

text \<open>\<^verbatim>\<open>typeName.replace(/\[\]$/, '')\<close>: one array suffix at the end is cut off.\<close>

definition extractBaseTypeName :: "string \<Rightarrow> string" where
  "extractBaseTypeName t = (if endsWith t ''[]'' then take (length t - 2) t else t)"

text \<open>\<^verbatim>\<open>typeNames.add(x)\<close> on a set that is read in the order of insertion.\<close>

definition setAdd :: "string list \<Rightarrow> string \<Rightarrow> string list" where
  "setAdd xs x = (if x \<in> set xs then xs else xs @ [x])"

text \<open>
  The type names an operation refers to that are set, in the order in which the loop of
  \<^verbatim>\<open>generateImports\<close> looks at them.
\<close>

definition referencedTypeNames :: "ParsedAPI \<Rightarrow> string list" where
  "referencedTypeNames api =
     map the (filter truthy [api_paramsTypeName api, api_bodyTypeName api, api_responseTypeName api])"

definition collectTypeNames :: "ParsedAPI list \<Rightarrow> string list" where
  "collectTypeNames apis =
     foldl (\<lambda>typeNames api.
             foldl (\<lambda>acc t.
                     (let baseName = extractBaseTypeName t
                      in if baseName \<in> set BUILTIN_TYPES then acc else setAdd acc baseName))
               typeNames (referencedTypeNames api))
       [] apis"

definition requestImportLine :: "Config \<Rightarrow> string" where
  "requestImportLine config =
     ''import { '' @ requestClient config @ '' } from '' @ apostrophe @ requestImport config @ apostrophe"

definition typeImportLine :: "string list \<Rightarrow> string \<Rightarrow> string" where
  "typeImportLine names typesImportPath =
     ''import type { '' @ join names '', '' @ '' } from '' @ apostrophe @ typesImportPath @ apostrophe"

definition generateImports :: "ParsedAPI list \<Rightarrow> string \<Rightarrow> Config \<Rightarrow> string" where
  "generateImports apis typesImportPath config =
     (let typeNames = collectTypeNames apis
      in join ([requestImportLine config]
           @ (if typeNames \<noteq> [] then [typeImportLine (sort typeNames) typesImportPath] else []))
          newline)"

definition buildFunctionParams :: "ParsedAPI \<Rightarrow> string list" where
  "buildFunctionParams api =
     map (\<lambda>pathParam.
            param_name pathParam @ '': ''
              @ (if param_type pathParam = Some ''integer'' then ''number''
                 else if truthy (param_type pathParam) then the (param_type pathParam) else ''string''))
       (api_pathParams api)
     @ (if truthy (api_bodyTypeName api) then [''data: '' @ the (api_bodyTypeName api)] else [])
     @ (if truthy (api_paramsTypeName api) then [''params: '' @ the (api_paramsTypeName api)] else [])"

text \<open>
  The request path with each path parameter, written \<^verbatim>\<open>{name}\<close> or \<^verbatim>\<open>:name\<close>,
  replaced by an interpolation of the parameter; parameter names are taken to be free of
  the dollar patterns that a replacement text would expand.
\<close>

definition interpolatePath :: "string \<Rightarrow> Parameter list \<Rightarrow> string" where
  "interpolatePath cleanPath pathParams =
     foldl (\<lambda>requestPath pathParam.
             replace (replace requestPath (''{'' @ param_name pathParam @ ''}'')
                        (''${'' @ param_name pathParam @ ''}''))
               ('':'' @ param_name pathParam) (''${'' @ param_name pathParam @ ''}''))
       cleanPath pathParams"

definition pathString :: "ParsedAPI \<Rightarrow> string" where
  "pathString api =
     (let requestPath = interpolatePath (api_cleanPath api) (api_pathParams api)
      in if api_pathParams api \<noteq> [] then ''`'' @ requestPath @ ''`''
         else apostrophe @ requestPath @ apostrophe)"

definition generateChainStyleFunction :: "ParsedAPI \<Rightarrow> string list \<Rightarrow> string \<Rightarrow> Config \<Rightarrow> string" where
  "generateChainStyleFunction api params returnType config =
     (let funcParams = join params '', '';
          method = toLowerCase (api_method api);
          requestArgs =
            pathString api
            @ (if method = ''get'' \<or> method = ''delete''
               then (if truthy (api_paramsTypeName api) then '', { params }'' else [])
               else (if truthy (api_bodyTypeName api) then '', data'' else [])
                    @ (if truthy (api_paramsTypeName api) then '', { params }'' else []))
      in ''export const '' @ api_functionName api @ '' = ('' @ funcParams @ '') => {'' @ newline
         @ ''  return '' @ requestClient config @ ''.'' @ method @ ''<'' @ returnType @ ''>(''
         @ requestArgs @ '')'' @ newline @ ''}'')"

definition generateObjectStyleFunction :: "ParsedAPI \<Rightarrow> string list \<Rightarrow> string \<Rightarrow> Config \<Rightarrow> string" where
  "generateObjectStyleFunction api params returnType config =
     (let funcParams = join params '', '';
          method = toLowerCase (api_method api);
          configLines =
            [''    url: '' @ pathString api,
             ''    method: '' @ apostrophe @ method @ apostrophe]
            @ (if truthy (api_bodyTypeName api) then [''    data''] else [])
            @ (if truthy (api_paramsTypeName api) then [''    params''] else []);
          configStr = join configLines ('','' @ newline)
      in ''export const '' @ api_functionName api @ '' = ('' @ funcParams @ '') => {'' @ newline
         @ ''  return '' @ requestClient config @ ''<'' @ returnType @ ''>({'' @ newline
         @ configStr @ newline @ ''  })'' @ newline @ ''}'')"

definition generateApiFunction :: "ParsedAPI \<Rightarrow> Config \<Rightarrow> string" where
  "generateApiFunction api config =
     (let params = buildFunctionParams api;
          returnType = (if truthy (api_responseTypeName api) then the (api_responseTypeName api)
                        else ''unknown'')
      in join ((if truthy (api_summary api) then [''/** '' @ the (api_summary api) @ '' */''] else [])
           @ [if requestStyle config = ''chain''
              then generateChainStyleFunction api params returnType config
              else generateObjectStyleFunction api params returnType config])
          newline)"

definition apiFileHeader :: "string list" where
  "apiFileHeader =
     [''/**'',
      '' * '' @ [CHR 0xE6, CHR 0xAD, CHR 0xA4, CHR 0xE6, CHR 0x96, CHR 0x87, CHR 0xE4, CHR 0xBB, CHR 0xB6,
                CHR 0xE7, CHR 0x94, CHR 0xB1]
        @ '' swagger-typegen ''
        @ [CHR 0xE8, CHR 0x87, CHR 0xAA, CHR 0xE5, CHR 0x8A, CHR 0xA8, CHR 0xE7, CHR 0x94, CHR 0x9F,
           CHR 0xE6, CHR 0x88, CHR 0x90],
      '' * '' @ [CHR 0xE8, CHR 0x87, CHR 0xAA, CHR 0xE5, CHR 0x8A, CHR 0xA8, CHR 0xE7, CHR 0x94, CHR 0x9F,
                CHR 0xE6, CHR 0x88, CHR 0x90, CHR 0xE7, CHR 0x9A, CHR 0x84, CHR 0xE4, CHR 0xBB, CHR 0xA3,
                CHR 0xE7, CHR 0xA0, CHR 0x81, CHR 0xE5, CHR 0x9C, CHR 0xA8]
        @ '' AUTO GENERATED ''
        @ [CHR 0xE6, CHR 0xA0, CHR 0x87, CHR 0xE8, CHR 0xAE, CHR 0xB0, CHR 0xE4, CHR 0xB9, CHR 0x8B,
           CHR 0xE9, CHR 0x97, CHR 0xB4],
      '' * '' @ [CHR 0xE6, CHR 0xA0, CHR 0x87, CHR 0xE8, CHR 0xAE, CHR 0xB0, CHR 0xE4, CHR 0xB9, CHR 0x8B,
                CHR 0xE5, CHR 0xA4, CHR 0x96, CHR 0xE7, CHR 0x9A, CHR 0x84, CHR 0xE4, CHR 0xBB, CHR 0xA3,
                CHR 0xE7, CHR 0xA0, CHR 0x81, CHR 0xE4, CHR 0xB8, CHR 0x8D, CHR 0xE4, CHR 0xBC, CHR 0x9A,
                CHR 0xE8, CHR 0xA2, CHR 0xAB, CHR 0xE8, CHR 0xA6, CHR 0x86, CHR 0xE7, CHR 0x9B, CHR 0x96],
      '' */'',
      []]"

text \<open>The header lines of the function file as one text.\<close>

definition apiFilePrefix :: string where
  "apiFilePrefix = join apiFileHeader newline"

definition generateApiFile :: "ParsedAPI list \<Rightarrow> string \<Rightarrow> Config \<Rightarrow> string" where
  "generateApiFile apis typesImportPath config =
     join (apiFileHeader
       @ [generateImports apis typesImportPath config, []]
       @ [AUTO_GEN_START, []]
       @ concat (map (\<lambda>api. [generateApiFunction api config, []]) apis)
       @ [AUTO_GEN_END, []])
      newline"

text \<open>An operation that reads a list of users, and one that creates an order.\<close>

definition getUsersApi :: ParsedAPI where
  "getUsersApi = \<lparr>
     api_path = ''/api/users'', api_cleanPath = ''/users'', api_method = ''get'', api_tag = ''user'',
     api_functionName = ''getUsers'', api_summary = None,
     api_paramsTypeName = Some ''GetUsersParams'', api_bodyTypeName = None,
     api_responseTypeName = Some ''User[]'',
     api_pathParams = [], api_queryParams = [], api_bodySchema = None, api_responseSchema = None \<rparr>"

definition postOrderApi :: ParsedAPI where
  "postOrderApi = \<lparr>
     api_path = ''/api/orders/{id}'', api_cleanPath = ''/orders/{id}'', api_method = ''post'',
     api_tag = ''order'', api_functionName = ''postOrdersById'', api_summary = Some ''create'',
     api_paramsTypeName = None, api_bodyTypeName = Some ''CreateOrder'',
     api_responseTypeName = Some ''string'',
     api_pathParams = [\<lparr>param_name = ''id'', param_in = ''path'', param_description = None,
        param_required = Some True, param_type = Some ''integer'', param_schema = None,
        param_items = None, param_enum = None\<rparr>],
     api_queryParams = [], api_bodySchema = None, api_responseSchema = None \<rparr>"

text \<open>A configuration whose request import path is the text of the end marker.\<close>

definition markerImportConfig :: Config where
  "markerImportConfig = defaultConfig\<lparr>requestImport := AUTO_GEN_END\<rparr>"


section \<open>The normalizer\<close>

text \<open>
  A definitions table is the list of the entries of the \<^verbatim>\<open>definitions\<close> object, with
  one entry for each name; a table is read with \<^const>\<open>map_of\<close>. The set of used
  references and the set of processed references are sets that are read in the order of
  insertion: lists without repetition, extended by \<^const>\<open>setAdd\<close>.
\<close>

definition shouldIncludeTag :: "string \<Rightarrow> Config \<Rightarrow> bool" where
  "shouldIncludeTag originalTag config =
     (if includeTags config \<noteq> [] then originalTag \<in> set (includeTags config)
      else if excludeTags config \<noteq> [] then originalTag \<notin> set (excludeTags config)
      else True)"

definition applyTagMapping :: "string \<Rightarrow> (string \<times> string) list \<Rightarrow> string" where
  "applyTagMapping tag mapping =
     (case map_of mapping tag of Some d \<Rightarrow> (if d \<noteq> [] then d else tag) | None \<Rightarrow> tag)"

definition firstTag :: "Operation \<Rightarrow> string" where
  "firstTag operation =
     (case op_tags operation of
        Some (t # ts) \<Rightarrow> (if t \<noteq> [] then t else ''default'')
      | _ \<Rightarrow> ''default'')"

definition parseType :: "string \<Rightarrow> SchemaObject \<Rightarrow> Config \<Rightarrow> ParsedType" where
  "parseType nm schema config =
     \<lparr>originalName = nm, typeName = cleanTypeName nm (typeNameSuffixFilter config), typeSchema = schema\<rparr>"

definition getModuleFromTypeName :: "string \<Rightarrow> string" where
  "getModuleFromTypeName nm =
     (let parts = split nm (CHR ''.'')
      in if length parts > 1 then tagToDirectoryName (hd parts) else ''common'')"

fun collectRefs :: "SchemaObject \<Rightarrow> string list" where
  "collectRefs (SchemaObject rf ty ds props its req en ao ap) =
     (if truthy rf then [the rf]
      else (case props of Some entries \<Rightarrow> concat (map (\<lambda>(k, v). collectRefs v) entries) | None \<Rightarrow> [])
         @ (case its of Some item \<Rightarrow> collectRefs item | None \<Rightarrow> [])
         @ (case ao of Some members \<Rightarrow> concat (map collectRefs members) | None \<Rightarrow> [])
         @ (case ap of Some (IsSchema a) \<Rightarrow> collectRefs a | _ \<Rightarrow> []))"

text \<open>
  The loop that drains the work-list. \<^verbatim>\<open>refsToProcess.pop()\<close> takes the last
  reference; a reference already processed is skipped; a new one is entered in the
  processed set and, when the table defines it, the references of its schema are pushed.
  The loop is written as it is, with no bound: a run that never ends has no result.
\<close>

partial_function (option) drainRefs ::
    "(string \<times> SchemaObject) list \<Rightarrow> string \<Rightarrow> string list \<Rightarrow> string list \<Rightarrow> string list option" where
  "drainRefs definitions refPrefix refsToProcess processedRefs =
     (if refsToProcess = [] then Some processedRefs
      else
        (let r = last refsToProcess; remaining = butlast refsToProcess
         in if r \<in> set processedRefs then drainRefs definitions refPrefix remaining processedRefs
            else
              (case map_of definitions (replace r refPrefix []) of
                 None \<Rightarrow> drainRefs definitions refPrefix remaining (setAdd processedRefs r)
               | Some schema \<Rightarrow>
                   drainRefs definitions refPrefix (remaining @ collectRefs schema)
                     (setAdd processedRefs r))))"

declare drainRefs.simps [code]

text \<open>\<^verbatim>\<open>types.get(moduleName).push(parsedType)\<close>, with a new module entered at the end.\<close>

definition mapPush :: "(string \<times> 'a list) list \<Rightarrow> string \<Rightarrow> 'a \<Rightarrow> (string \<times> 'a list) list" where
  "mapPush m k v =
     (if map_of m k = None then m @ [(k, [v])]
      else map (\<lambda>(k', vs). if k' = k then (k', vs @ [v]) else (k', vs)) m)"

definition resolveStep ::
    "(string \<times> SchemaObject) list \<Rightarrow> string \<Rightarrow> Config \<Rightarrow> (string \<times> ParsedType list) list \<Rightarrow> string
      \<Rightarrow> (string \<times> ParsedType list) list" where
  "resolveStep definitions refPrefix config types r =
     (let refName = replace r refPrefix []
      in case map_of definitions refName of
           None \<Rightarrow> types
         | Some schema \<Rightarrow>
             mapPush types (getModuleFromTypeName refName) (parseType refName schema config))"

definition resolveTypes ::
    "(string \<times> SchemaObject) list \<Rightarrow> string \<Rightarrow> Config \<Rightarrow> string list \<Rightarrow> (string \<times> ParsedType list) list" where
  "resolveTypes definitions refPrefix config processedRefs =
     foldl (resolveStep definitions refPrefix config) [] processedRefs"

text \<open>\<^verbatim>\<open>schemaTypeToTs\<close>, the rendering of an inline field of a response.\<close>

fun schemaTypeToTs :: "SchemaObject \<Rightarrow> string" where
  "schemaTypeToTs (SchemaObject rf ty ds props its req en ao ap) =
     (if truthy rf then
        (let nm = last (split (replace (the rf) ''#/definitions/'' []) (CHR ''.''))
         in if nm \<noteq> [] then nm else ''unknown'')
      else if ty = Some ''string'' then ''string''
      else if ty = Some ''integer'' \<or> ty = Some ''number'' then ''number''
      else if ty = Some ''boolean'' then ''boolean''
      else if ty = Some ''array'' then
        (case its of Some item \<Rightarrow> schemaTypeToTs item @ ''[]'' | None \<Rightarrow> ''unknown[]'')
      else if ty = Some ''object'' then ''Record<string, unknown>''
      else ''unknown'')"

text \<open>The field of a schema named by the unwrap field, when the schema has properties and that field.\<close>

definition propertyOf :: "SchemaObject \<Rightarrow> string \<Rightarrow> SchemaObject option" where
  "propertyOf schema field =
     (case properties schema of Some entries \<Rightarrow> map_of entries field | None \<Rightarrow> None)"

definition extractUnwrappedType ::
    "string \<Rightarrow> string \<Rightarrow> (string \<times> SchemaObject) list \<Rightarrow> Config \<Rightarrow> string list
      \<Rightarrow> string option \<times> string list" where
  "extractUnwrappedType r unwrapField definitions config usedRefs =
     (let refName = replace r ''#/definitions/'' []
      in case map_of definitions refName of
           None \<Rightarrow> (None, usedRefs)
         | Some schema \<Rightarrow>
            (case propertyOf schema unwrapField of
               Some fieldSchema \<Rightarrow>
                 (if truthy (ref fieldSchema)
                  then (Some (cleanTypeName (replace (the (ref fieldSchema)) ''#/definitions/'' [])
                                (typeNameSuffixFilter config)),
                        setAdd usedRefs (the (ref fieldSchema)))
                  else if type fieldSchema = Some ''array''
                          \<and> (case items fieldSchema of Some item \<Rightarrow> truthy (ref item) | None \<Rightarrow> False)
                  then (Some (cleanTypeName
                                (replace (the (ref (the (items fieldSchema)))) ''#/definitions/'' [])
                                (typeNameSuffixFilter config) @ ''[]''),
                        setAdd usedRefs (the (ref (the (items fieldSchema)))))
                  else (Some (schemaTypeToTs fieldSchema), usedRefs))
             | None \<Rightarrow> (Some (cleanTypeName refName (typeNameSuffixFilter config)), usedRefs)))"

text \<open>
  The loop over the parameters of an operation; its state is the path parameters, the
  query parameters, the body schema, the body type name and the used references.
\<close>

definition parameterStep ::
    "Config \<Rightarrow> Parameter list \<times> Parameter list \<times> SchemaObject option \<times> string option \<times> string list
      \<Rightarrow> Parameter
      \<Rightarrow> Parameter list \<times> Parameter list \<times> SchemaObject option \<times> string option \<times> string list" where
  "parameterStep config st param =
     (case st of (pathParams, queryParams, bodySchema, bodyTypeName, usedRefs) \<Rightarrow>
        if param_in param = ''path'' then (pathParams @ [param], queryParams, bodySchema, bodyTypeName, usedRefs)
        else if param_in param = ''query'' then (pathParams, queryParams @ [param], bodySchema, bodyTypeName, usedRefs)
        else if param_in param = ''body'' \<and> param_schema param \<noteq> None then
          (let schema = the (param_schema param)
           in if truthy (ref schema)
              then (pathParams, queryParams, Some schema,
                    Some (cleanTypeName (replace (the (ref schema)) ''#/definitions/'' [])
                            (typeNameSuffixFilter config)),
                    setAdd usedRefs (the (ref schema)))
              else (pathParams, queryParams, Some schema, bodyTypeName, usedRefs))
        else st)"

text \<open>
  The loop over the members of a response written with \<^verbatim>\<open>allOf\<close>; its state is the
  response type name and the used references.
\<close>

definition allOfStep ::
    "Config \<Rightarrow> string option \<Rightarrow> string option \<times> string list \<Rightarrow> SchemaObject \<Rightarrow> string option \<times> string list" where
  "allOfStep config unwrapField st item =
     (case st of (responseTypeName, usedRefs) \<Rightarrow>
        (let usedRefs1 = (if truthy (ref item) then setAdd usedRefs (the (ref item)) else usedRefs)
         in if truthy unwrapField then
              (case propertyOf item (the unwrapField) of
                 Some dataSchema \<Rightarrow>
                   (if truthy (ref dataSchema)
                    then (Some (cleanTypeName (replace (the (ref dataSchema)) ''#/definitions/'' [])
                                  (typeNameSuffixFilter config)),
                          setAdd usedRefs1 (the (ref dataSchema)))
                    else if truthy (type dataSchema) then (Some (schemaTypeToTs dataSchema), usedRefs1)
                    else (responseTypeName, usedRefs1))
               | None \<Rightarrow> (responseTypeName, usedRefs1))
            else (responseTypeName, usedRefs1)))"

definition successResponse :: "Operation \<Rightarrow> ResponseObject option" where
  "successResponse operation =
     (case map_of (op_responses operation) ''200'' of
        Some response \<Rightarrow> Some response
      | None \<Rightarrow> map_of (op_responses operation) ''201'')"

text \<open>The resolution of the response: the response schema, its type name and the used references.\<close>

definition parseResponse ::
    "Operation \<Rightarrow> Config \<Rightarrow> string list \<Rightarrow> (string \<times> SchemaObject) list
      \<Rightarrow> SchemaObject option \<times> string option \<times> string list" where
  "parseResponse operation config usedRefs definitions =
     (case successResponse operation of
        None \<Rightarrow> (None, None, usedRefs)
      | Some response \<Rightarrow>
         (case response_schema response of
            None \<Rightarrow> (None, None, usedRefs)
          | Some responseSchema \<Rightarrow>
             (let unwrapField = unwrapResponseField config
              in case allOf responseSchema of
                   Some members \<Rightarrow>
                     (case foldl (allOfStep config unwrapField) (None, usedRefs) members of
                        (responseTypeName, usedRefs') \<Rightarrow> (Some responseSchema, responseTypeName, usedRefs'))
                 | None \<Rightarrow>
                    (if truthy (ref responseSchema) then
                       (let usedRefs1 = setAdd usedRefs (the (ref responseSchema))
                        in if truthy unwrapField then
                             (case extractUnwrappedType (the (ref responseSchema)) (the unwrapField)
                                     definitions config usedRefs1 of
                                (responseTypeName, usedRefs') \<Rightarrow>
                                  (Some responseSchema, responseTypeName, usedRefs'))
                           else (Some responseSchema,
                                 Some (cleanTypeName (replace (the (ref responseSchema)) ''#/definitions/'' [])
                                         (typeNameSuffixFilter config)),
                                 usedRefs1))
                     else if properties responseSchema \<noteq> None \<and> truthy unwrapField then
                       (case propertyOf responseSchema (the unwrapField) of
                          Some dataSchema \<Rightarrow>
                            (if truthy (ref dataSchema)
                             then (Some responseSchema,
                                   Some (cleanTypeName (replace (the (ref dataSchema)) ''#/definitions/'' [])
                                           (typeNameSuffixFilter config)),
                                   setAdd usedRefs (the (ref dataSchema)))
                             else if truthy (type dataSchema)
                             then (Some responseSchema, Some (schemaTypeToTs dataSchema), usedRefs)
                             else (Some responseSchema, None, usedRefs))
                        | None \<Rightarrow> (Some responseSchema, None, usedRefs))
                     else (Some responseSchema, None, usedRefs)))))"

definition parseOperation ::
    "string \<Rightarrow> string \<Rightarrow> Operation \<Rightarrow> Config \<Rightarrow> string list \<Rightarrow> (string \<times> SchemaObject) list
      \<Rightarrow> (string \<times> string) list \<Rightarrow> ParsedAPI \<times> string list" where
  "parseOperation pth method operation config usedRefs definitions mapping =
     (let originalTag = firstTag operation;
          mappedTag = applyTagMapping originalTag mapping;
          tag = tagToDirectoryName mappedTag;
          cleanPath = cleanPathPrefix pth (pathPrefixFilter config);
          functionName = generateFunctionName method cleanPath
      in case foldl (parameterStep config) ([], [], None, None, usedRefs)
                (case op_parameters operation of Some ps \<Rightarrow> ps | None \<Rightarrow> []) of
           (pathParams, queryParams, bodySchema, bodyTypeName, usedRefs1) \<Rightarrow>
             (let paramsTypeName =
                    (if queryParams \<noteq> [] then Some (toPascalCase functionName @ ''Params'') else None)
              in case parseResponse operation config usedRefs1 definitions of
                   (responseSchema, responseTypeName, usedRefs2) \<Rightarrow>
                     (\<lparr>api_path = pth, api_cleanPath = cleanPath, api_method = method, api_tag = tag,
                       api_functionName = functionName, api_summary = op_summary operation,
                       api_paramsTypeName = paramsTypeName, api_bodyTypeName = bodyTypeName,
                       api_responseTypeName = responseTypeName, api_pathParams = pathParams,
                       api_queryParams = queryParams, api_bodySchema = bodySchema,
                       api_responseSchema = responseSchema\<rparr>,
                      usedRefs2)))"

text \<open>
  The two phases of \<^verbatim>\<open>parseSwagger2\<close>. A path item is the list of its operations by
  method. The first phase parses every operation that passes the tag filter and groups the
  results by tag; the second drains the used references and groups the types by module.
\<close>

record SwaggerSpec =
  spec_paths :: "(string \<times> (string \<times> Operation) list) list"
  spec_definitions :: "(string \<times> SchemaObject) list option"

definition httpMethods :: "string list" where
  "httpMethods = [''get'', ''post'', ''put'', ''delete'', ''patch'', ''options'', ''head'']"

definition parseApis ::
    "SwaggerSpec \<Rightarrow> Config \<Rightarrow> (string \<times> string) list
      \<Rightarrow> (string \<times> ParsedAPI list) list \<times> string list" where
  "parseApis spec config mapping =
     foldl (\<lambda>st (pth, pathItem).
         foldl (\<lambda>st' method.
             (case map_of pathItem method of
                None \<Rightarrow> st'
              | Some operation \<Rightarrow>
                  if \<not> shouldIncludeTag (firstTag operation) config then st'
                  else
                    (case st' of (apis, usedRefs) \<Rightarrow>
                       (case parseOperation pth method operation config usedRefs
                               (case spec_definitions spec of Some ds \<Rightarrow> ds | None \<Rightarrow> []) mapping of
                          (parsedAPI, usedRefs') \<Rightarrow>
                            (mapPush apis (api_tag parsedAPI) parsedAPI, usedRefs')))))
           st httpMethods)
       ([], []) (spec_paths spec)"

definition parseSwagger2 ::
    "SwaggerSpec \<Rightarrow> Config \<Rightarrow> (string \<times> string) list
      \<Rightarrow> ((string \<times> ParsedAPI list) list \<times> (string \<times> ParsedType list) list) option" where
  "parseSwagger2 spec config mapping =
     (case parseApis spec config mapping of
        (apis, usedRefs) \<Rightarrow>
          (case spec_definitions spec of
             None \<Rightarrow> Some (apis, [])
           | Some ds \<Rightarrow>
              (case drainRefs ds ''#/definitions/'' usedRefs [] of
                 None \<Rightarrow> None
               | Some processedRefs \<Rightarrow>
                   Some (apis, resolveTypes ds ''#/definitions/'' config processedRefs))))"

text \<open>
  The references that can be reached from the used references: a used reference, and
  every reference that \<^const>\<open>collectRefs\<close> finds in the schema of a reached reference
  that the table defines.
\<close>

inductive_set reachableRefs :: "(string \<times> SchemaObject) list \<Rightarrow> string \<Rightarrow> string list \<Rightarrow> string set"
  for definitions :: "(string \<times> SchemaObject) list" and refPrefix :: string and usedRefs :: "string list"
where
  used: "r \<in> set usedRefs \<Longrightarrow> r \<in> reachableRefs definitions refPrefix usedRefs"
| step: "r \<in> reachableRefs definitions refPrefix usedRefs \<Longrightarrow>
         map_of definitions (replace r refPrefix []) = Some schema \<Longrightarrow>
         r' \<in> set (collectRefs schema) \<Longrightarrow>
         r' \<in> reachableRefs definitions refPrefix usedRefs"

text \<open>Every reference that stands in some schema of the table.\<close>

definition allRefs :: "(string \<times> SchemaObject) list \<Rightarrow> string set" where
  "allRefs definitions = (\<Union>entry\<in>set definitions. set (collectRefs (snd entry)))"

text \<open>The parsed type that a reference resolves to, when the table defines it.\<close>

definition resolvedType :: "(string \<times> SchemaObject) list \<Rightarrow> string \<Rightarrow> Config \<Rightarrow> string \<Rightarrow> ParsedType option" where
  "resolvedType definitions refPrefix config r =
     (case map_of definitions (replace r refPrefix []) of
        None \<Rightarrow> None
      | Some schema \<Rightarrow> Some (parseType (replace r refPrefix []) schema config))"

text \<open>Two schemas that refer to each other, and an operation that returns the first.\<close>

definition nodeSchema :: "string \<Rightarrow> SchemaObject" where
  "nodeSchema other = objectSchema [(''id'', typedSchema ''integer''), (''peer'', refSchema other)]"

definition cyclicDefinitions :: "(string \<times> SchemaObject) list" where
  "cyclicDefinitions =
     [(''Author'', nodeSchema ''#/definitions/Book''), (''Book'', nodeSchema ''#/definitions/Author'')]"

definition cyclicSpec :: SwaggerSpec where
  "cyclicSpec = \<lparr>
     spec_paths =
       [(''/authors'',
         [(''get'', \<lparr>op_tags = None, op_summary = None, op_parameters = None,
             op_responses = [(''200'', \<lparr>response_description = ''ok'',
                response_schema = Some (refSchema ''#/definitions/Author'')\<rparr>)]\<rparr>)])],
     spec_definitions = Some cyclicDefinitions \<rparr>"

text \<open>
  An envelope with the fields \<^verbatim>\<open>code\<close>, \<^verbatim>\<open>message\<close> and \<^verbatim>\<open>data\<close>, where
  \<^verbatim>\<open>data\<close> is a user or a list of users, and operations that return such envelopes.
\<close>

definition userSchema :: SchemaObject where
  "userSchema = objectSchema [(''id'', typedSchema ''integer''), (''name'', typedSchema ''string'')]"

definition envelopeSchema :: "SchemaObject \<Rightarrow> SchemaObject" where
  "envelopeSchema dataSchema =
     objectSchema [(''code'', typedSchema ''integer''), (''message'', typedSchema ''string''),
                   (''data'', dataSchema)]"

definition envelopeDefinitions :: "(string \<times> SchemaObject) list" where
  "envelopeDefinitions =
     [(''response.UserEnvelope'', envelopeSchema (refSchema ''#/definitions/model.User'')),
      (''response.UserListEnvelope'', envelopeSchema (arraySchema (refSchema ''#/definitions/model.User''))),
      (''model.User'', userSchema)]"

definition okResponse :: "string \<Rightarrow> ResponseObject" where
  "okResponse r = \<lparr>response_description = ''ok'', response_schema = Some (refSchema r)\<rparr>"

definition envelopeOperation :: "string \<Rightarrow> Operation" where
  "envelopeOperation r =
     \<lparr>op_tags = Some [''user''], op_summary = None, op_parameters = None,
      op_responses = [(''200'', okResponse r)]\<rparr>"


text \<open>
  Envelopes whose \<^verbatim>\<open>data\<close> is an inline object, a list of lists of users or a list
  of lists of texts, and the operations that return them, as \<^verbatim>\<open>parseOperation\<close>
  resolves them under the default configuration.
\<close>

definition inlineEnvelopeDefinitions :: "(string \<times> SchemaObject) list" where
  "inlineEnvelopeDefinitions =
     [(''response.StatsEnvelope'', envelopeSchema (typedSchema ''object'')),
      (''response.UserPagesEnvelope'',
         envelopeSchema (arraySchema (arraySchema (refSchema ''#/definitions/model.User'')))),
      (''response.TagPagesEnvelope'', envelopeSchema (arraySchema (arraySchema (typedSchema ''string'')))),
      (''model.User'', userSchema)]"

definition inlineEnvelopeApi :: "string \<Rightarrow> string \<Rightarrow> ParsedAPI" where
  "inlineEnvelopeApi pth r =
     fst (parseOperation pth ''get'' (envelopeOperation r) defaultConfig [] inlineEnvelopeDefinitions [])"

definition statsApi :: ParsedAPI where
  "statsApi = inlineEnvelopeApi ''/api/stats'' ''#/definitions/response.StatsEnvelope''"

definition userPagesApi :: ParsedAPI where
  "userPagesApi = inlineEnvelopeApi ''/api/users/pages'' ''#/definitions/response.UserPagesEnvelope''"

definition tagPagesApi :: ParsedAPI where
  "tagPagesApi = inlineEnvelopeApi ''/api/tags/pages'' ''#/definitions/response.TagPagesEnvelope''"

section \<open>Evaluating text searches\<close>

text \<open>
  A comparison with a pattern can stop at the first character that differs; this is the
  equation by which \<^const>\<open>startsWith\<close> is evaluated.
\<close>

lemma startsWith_code [code]:
  "startsWith s [] = True"
  "startsWith [] (d # ds) = False"
  "startsWith (c # cs) (d # ds) = (if c = d then startsWith cs ds else False)"
  by (auto simp: startsWith_def)


section \<open>Type-name cleaning\<close>

lemma removeTypeSuffix_no_match:
  "\<forall>s\<in>set suffixes. \<not> endsWith name s \<Longrightarrow> removeTypeSuffix name suffixes = name"
  by (induction suffixes) auto

lemma slice_strip_suffix:
  assumes "endsWith name s" and "s \<noteq> []"
  shows "slice name 0 (- int (length s)) @ s = name"
proof -
  from assms have le: "length s \<le> length name" and d: "drop (length name - length s) name = s"
    by (auto simp: endsWith_def)
  from assms(2) have "0 < length s" by simp
  then have "slice name 0 (- int (length s)) = take (length name - length s) name"
    using le by (simp add: slice_def sliceIndex_def Let_def nat_diff_distrib' max_def)
  then show ?thesis
    using d by (metis append_take_drop_id)
qed

lemma removeTypeSuffix_first:
  "\<forall>p\<in>set pre. \<not> endsWith name p \<Longrightarrow>
   removeTypeSuffix name (pre @ s # post) =
     (if endsWith name s then slice name 0 (- int (length s)) else removeTypeSuffix name post)"
  by (induction pre) auto

lemma slice_whole_suffix: "slice s 0 (- int (length s)) = []"
  by (simp add: slice_def sliceIndex_def Let_def)

lemma endsWith_refl: "endsWith s s"
  by (simp add: endsWith_def)

text \<open>
  The cut \<^verbatim>\<open>name.slice(0, -suffix.length)\<close> with an empty suffix is
  \<^verbatim>\<open>name.slice(0, 0)\<close>: an empty suffix in the list erases the whole name.
\<close>

lemma removeTypeSuffix_empty_suffix: "removeTypeSuffix name ([] # suffixes) = []"
  by (simp add: endsWith_def slice_def sliceIndex_def)

text \<open>
  C10, as the code has it. A name that no suffix of the list ends is returned unchanged.
  Otherwise exactly one suffix is cut off: the first one of the list that the name ends
  with (stated for a suffix that is not empty). Hence a qualified name whose last segment,
  in Pascal case, is itself the first suffix of the list that it ends with is cleaned to
  the empty text.
\<close>

theorem removeTypeSuffix_strips_first_match:
  "((\<forall>s\<in>set suffixes. \<not> endsWith name s) \<longrightarrow> removeTypeSuffix name suffixes = name) \<and>
   ((\<forall>p\<in>set pre. \<not> endsWith name p) \<and> endsWith name s \<and> s \<noteq> [] \<longrightarrow>
      removeTypeSuffix name (pre @ s # post) @ s = name) \<and>
   ((\<forall>p\<in>set pre. \<not> endsWith (toPascalCase (last (split q (CHR ''.'')))) p) \<and>
      toPascalCase (last (split q (CHR ''.''))) = s \<longrightarrow>
      cleanTypeName q (pre @ s # post) = [])"
proof (intro conjI impI)
  assume "\<forall>s\<in>set suffixes. \<not> endsWith name s"
  then show "removeTypeSuffix name suffixes = name" by (rule removeTypeSuffix_no_match)
next
  assume a: "(\<forall>p\<in>set pre. \<not> endsWith name p) \<and> endsWith name s \<and> s \<noteq> []"
  then have "removeTypeSuffix name (pre @ s # post) = slice name 0 (- int (length s))"
    by (simp add: removeTypeSuffix_first)
  then show "removeTypeSuffix name (pre @ s # post) @ s = name"
    using a by (simp add: slice_strip_suffix)
next
  assume a: "(\<forall>p\<in>set pre. \<not> endsWith (toPascalCase (last (split q (CHR ''.'')))) p) \<and>
      toPascalCase (last (split q (CHR ''.''))) = s"
  then have b: "\<forall>p\<in>set pre. \<not> endsWith s p" by blast
  have "removeTypeSuffix s (pre @ s # post) = slice s 0 (- int (length s))"
    using removeTypeSuffix_first [OF b, of s post] by (simp add: endsWith_refl)
  then have "removeTypeSuffix s (pre @ s # post) = []"
    by (simp add: slice_whole_suffix)
  moreover have "cleanTypeName q (pre @ s # post) = removeTypeSuffix s (pre @ s # post)"
    using a by (simp add: cleanTypeName_def Let_def)
  ultimately show "cleanTypeName q (pre @ s # post) = []" by simp
qed

theorem removeTypeSuffix_strips_first_match_witness:
  "removeTypeSuffix ''OrderLine'' [''Request'', ''Response''] = ''OrderLine'' \<and>
   removeTypeSuffix ''OrderResponse'' ([''Request''] @ ''Response'' # []) @ ''Response''
     = ''OrderResponse'' \<and>
   cleanTypeName ''response.Response'' ([''Request''] @ ''Response'' # []) = []"
proof -
  have h1: "\<forall>s\<in>set [''Request'', ''Response'']. \<not> endsWith ''OrderLine'' s"
    by code_simp
  have h2: "(\<forall>p\<in>set [''Request'']. \<not> endsWith ''OrderResponse'' p)
      \<and> endsWith ''OrderResponse'' ''Response'' \<and> ''Response'' \<noteq> []"
    by code_simp
  have h3: "(\<forall>p\<in>set [''Request''].
        \<not> endsWith (toPascalCase (last (split ''response.Response'' (CHR ''.'')))) p) \<and>
      toPascalCase (last (split ''response.Response'' (CHR ''.''))) = ''Response''"
    by code_simp
  note a = removeTypeSuffix_strips_first_match
    [of "[''Request'', ''Response'']" "''OrderLine''" "[]" "[]" "[]" "[]",
      THEN conjunct1, THEN mp, OF h1]
  note b = removeTypeSuffix_strips_first_match
    [of "[]" "''OrderResponse''" "[''Request'']" "''Response''" "[]" "''response.Response''",
      THEN conjunct2, THEN conjunct1, THEN mp, OF h2]
  note c = removeTypeSuffix_strips_first_match
    [of "[]" "''OrderResponse''" "[''Request'']" "''Response''" "[]" "''response.Response''",
      THEN conjunct2, THEN conjunct2, THEN mp, OF h3]
  show ?thesis
    by (intro conjI a b c)
qed

text \<open>
  The last segment \<^verbatim>\<open>Response\<close> is a configured suffix, yet an earlier suffix of the
  list matches first and the cleaned name is not empty; and with an empty suffix in the
  list the name is not returned with that suffix cut off, but erased.
\<close>

theorem cleanTypeName_later_suffix_counterexample:
  "toPascalCase (last (split ''a.Response'' (CHR ''.''))) = ''Response'' \<and>
   ''Response'' \<in> set [''onse'', ''Response''] \<and>
   cleanTypeName ''a.Response'' [''onse'', ''Response''] = ''Resp'' \<and>
   endsWith ''Foo'' [] \<and> removeTypeSuffix ''Foo'' [[]] = []"
  by code_simp

section \<open>Path prefixes\<close>

lemma cleanPathPrefix_none:
  "\<forall>q\<in>set prefixes. \<not> startsWith path q \<Longrightarrow> cleanPathPrefix path prefixes = path"
  by (induction prefixes) auto

lemma sortPrefixes_sorted: "sorted_wrt (\<lambda>a b. length b \<le> length a) (sortPrefixes raw)"
proof -
  have "sorted (map (\<lambda>p. - int (length p)) (sortPrefixes raw))"
    by (simp add: sortPrefixes_def)
  then show ?thesis
    by (simp add: sorted_wrt_map)
qed

lemma set_sortPrefixes: "set (sortPrefixes raw) = set raw"
  by (simp add: sortPrefixes_def)

lemma cleanPathPrefix_sorted:
  "sorted_wrt (\<lambda>a b. length b \<le> length a) prefixes \<Longrightarrow> p \<in> set prefixes \<Longrightarrow>
   startsWith path p \<Longrightarrow>
   \<forall>q\<in>set prefixes. startsWith path q \<longrightarrow> length q \<le> length p \<Longrightarrow>
   cleanPathPrefix path prefixes =
     (let result = drop (length p) path
      in if startsWith result ''/'' then result else ''/'' @ result)"
proof (induction prefixes)
  case Nil
  then show ?case by simp
next
  case (Cons a prefixes)
  show ?case
  proof (cases "startsWith path a")
    case True
    then have "length a \<le> length p" using Cons.prems by simp
    moreover have "length p \<le> length a" using Cons.prems by auto
    ultimately have "length a = length p" by simp
    moreover have "length p \<le> length path"
    proof -
      from Cons.prems(3) have "length (take (length p) path) = length p"
        by (simp only: startsWith_def)
      then show ?thesis by simp
    qed
    ultimately show ?thesis
      using True by (simp add: sliceFrom_def sliceIndex_def Let_def startsWith_def min_def)
  next
    case False
    then have "p \<in> set prefixes" using Cons.prems by auto
    then show ?thesis using False Cons by simp
  qed
qed

text \<open>
  C7. On a strip-list sorted longest-first, and so on every list as \<^verbatim>\<open>loadConfig\<close>
  sorts it, the prefix that is cut off is a longest one among the configured prefixes the
  path starts with; the rest of the path is returned, with a leading slash put in front
  when it has none. A path that starts with no configured prefix is returned unchanged.
\<close>

theorem cleanPathPrefix_longest_first:
  assumes "sorted_wrt (\<lambda>a b. length b \<le> length a) prefixes"
  shows "(\<forall>p\<in>set prefixes.
            startsWith path p \<and> (\<forall>q\<in>set prefixes. startsWith path q \<longrightarrow> length q \<le> length p) \<longrightarrow>
            cleanPathPrefix path prefixes =
              (let result = drop (length p) path
               in if startsWith result ''/'' then result else ''/'' @ result)) \<and>
         ((\<forall>q\<in>set prefixes. \<not> startsWith path q) \<longrightarrow> cleanPathPrefix path prefixes = path) \<and>
         (\<forall>p\<in>set raw.
            startsWith path p \<and> (\<forall>q\<in>set raw. startsWith path q \<longrightarrow> length q \<le> length p) \<longrightarrow>
            cleanPathPrefix path (sortPrefixes raw) =
              (let result = drop (length p) path
               in if startsWith result ''/'' then result else ''/'' @ result))"
proof (intro conjI ballI impI)
  fix p
  assume m: "p \<in> set prefixes"
    and l: "startsWith path p \<and> (\<forall>q\<in>set prefixes. startsWith path q \<longrightarrow> length q \<le> length p)"
  from l have l1: "startsWith path p"
    and l2: "\<forall>q\<in>set prefixes. startsWith path q \<longrightarrow> length q \<le> length p"
    by blast+
  show "cleanPathPrefix path prefixes =
      (let result = drop (length p) path in if startsWith result ''/'' then result else ''/'' @ result)"
    by (rule cleanPathPrefix_sorted [OF assms m l1 l2])
next
  assume "\<forall>q\<in>set prefixes. \<not> startsWith path q"
  then show "cleanPathPrefix path prefixes = path" by (rule cleanPathPrefix_none)
next
  fix p
  assume m: "p \<in> set raw"
    and l: "startsWith path p \<and> (\<forall>q\<in>set raw. startsWith path q \<longrightarrow> length q \<le> length p)"
  from m have m': "p \<in> set (sortPrefixes raw)"
    by (simp only: set_sortPrefixes)
  from l have l1: "startsWith path p"
    and l2: "\<forall>q\<in>set (sortPrefixes raw). startsWith path q \<longrightarrow> length q \<le> length p"
    unfolding set_sortPrefixes by blast+
  show "cleanPathPrefix path (sortPrefixes raw) =
      (let result = drop (length p) path in if startsWith result ''/'' then result else ''/'' @ result)"
    by (rule cleanPathPrefix_sorted [OF sortPrefixes_sorted m' l1 l2])
qed

theorem cleanPathPrefix_longest_first_witness:
  "sorted_wrt (\<lambda>a b. length b \<le> length a) [''/api/v1'', ''/api''] \<and>
   cleanPathPrefix ''/api/v1/orders'' [''/api/v1'', ''/api''] = ''/orders'' \<and>
   cleanPathPrefix ''/health'' [''/api/v1'', ''/api''] = ''/health'' \<and>
   cleanPathPrefix ''/api/v1/orders'' (sortPrefixes [''/api'', ''/api/v1'']) = ''/orders''"
proof -
  have s: "sorted_wrt (\<lambda>a b. length b \<le> length a) [''/api/v1'', ''/api'']"
    by simp
  have m: "''/api/v1'' \<in> set [''/api/v1'', ''/api''] \<and> ''/api/v1'' \<in> set [''/api'', ''/api/v1'']"
    by simp
  have l: "startsWith ''/api/v1/orders'' ''/api/v1'' \<and>
      (\<forall>q\<in>set [''/api/v1'', ''/api'']. startsWith ''/api/v1/orders'' q \<longrightarrow> length q \<le> length ''/api/v1'')"
    by code_simp
  have l': "\<forall>q\<in>set [''/api'', ''/api/v1'']. startsWith ''/api/v1/orders'' q \<longrightarrow> length q \<le> length ''/api/v1''"
    by code_simp
  have n: "\<forall>q\<in>set [''/api/v1'', ''/api'']. \<not> startsWith ''/health'' q"
    by code_simp
  have r: "(let result = drop (length ''/api/v1'') ''/api/v1/orders''
            in if startsWith result ''/'' then result else ''/'' @ result) = ''/orders''"
    by code_simp
  from cleanPathPrefix_longest_first [OF s, of "''/api/v1/orders''" "[''/api'', ''/api/v1'']"] m l l' r
  have a: "cleanPathPrefix ''/api/v1/orders'' [''/api/v1'', ''/api''] = ''/orders''"
    and c: "cleanPathPrefix ''/api/v1/orders'' (sortPrefixes [''/api'', ''/api/v1'']) = ''/orders''"
    by metis+
  from cleanPathPrefix_longest_first [OF s, of "''/health''" "[]"] n
  have b: "cleanPathPrefix ''/health'' [''/api/v1'', ''/api''] = ''/health''"
    by blast
  show ?thesis using s a b c by blast
qed


section \<open>Function names\<close>
























lemma separator_chars:
  "isSeparator sp \<Longrightarrow> sp \<noteq> CHR ''/'' \<and> sp \<noteq> CHR ''{'' \<and> sp \<noteq> CHR '':'' \<and> sp \<noteq> CHR ''}''"
  by (auto simp: isSeparator_def)

































section \<open>Merging into an existing function file\<close>

lemma indexOf_ge: "- 1 \<le> indexOf s p"
  by (induction s) (auto simp: Let_def)

lemma occursAt_Cons: "occursAt (c # cs) p (Suc i) = occursAt cs p i"
  by (simp add: occursAt_def)

lemma take_eq_length: "take (length p) s = p \<Longrightarrow> length p \<le> length s"
proof -
  assume "take (length p) s = p"
  then have "length (take (length p) s) = length p" by simp
  then show ?thesis by simp
qed

lemma occursAt_0: "occursAt s p 0 = startsWith s p"
  by (auto simp: occursAt_def startsWith_def dest: take_eq_length)

lemma indexOf_none: "indexOf s p = - 1 \<Longrightarrow> \<not> occursAt s p i"
proof (induction s arbitrary: i)
  case Nil
  then show ?case by (auto simp: occursAt_def split: if_splits)
next
  case (Cons c cs)
  from Cons.prems have ns: "\<not> startsWith (c # cs) p" and r: "indexOf cs p = - 1"
    using indexOf_ge [of cs p] by (auto simp: Let_def split: if_splits)
  show ?case
  proof (cases i)
    case 0
    then show ?thesis using ns by (simp add: occursAt_0)
  next
    case (Suc k)
    then show ?thesis using Cons.IH [OF r] by (simp add: occursAt_Cons)
  qed
qed

lemma indexOf_firstAt: "indexOf s p \<noteq> - 1 \<Longrightarrow> firstAt s p (nat (indexOf s p))"
proof (induction s)
  case Nil
  then show ?case by (auto simp: firstAt_def occursAt_def split: if_splits)
next
  case (Cons c cs)
  show ?case
  proof (cases "startsWith (c # cs) p")
    case True
    then show ?thesis by (simp add: firstAt_def occursAt_0)
  next
    case False
    with Cons.prems have r: "indexOf cs p \<noteq> - 1" by (auto simp: Let_def)
    then have ge: "0 \<le> indexOf cs p" using indexOf_ge [of cs p] by arith
    from False r have e: "nat (indexOf (c # cs) p) = Suc (nat (indexOf cs p))"
      using ge by (simp add: Let_def nat_add_distrib)
    from Cons.IH [OF r] have f: "firstAt cs p (nat (indexOf cs p))" .
    have "occursAt (c # cs) p (Suc (nat (indexOf cs p)))"
      using f by (simp add: firstAt_def occursAt_Cons)
    moreover have "\<not> occursAt (c # cs) p j" if "j < Suc (nat (indexOf cs p))" for j
    proof (cases j)
      case 0
      then show ?thesis using False by (simp add: occursAt_0)
    next
      case (Suc k)
      then show ?thesis using f that by (simp add: firstAt_def occursAt_Cons)
    qed
    ultimately show ?thesis unfolding e by (simp add: firstAt_def)
  qed
qed

lemma indexOf_contains: "contains s p \<longleftrightarrow> indexOf s p \<noteq> - 1"
proof
  assume "contains s p"
  then show "indexOf s p \<noteq> - 1" using indexOf_none by (auto simp: contains_def)
next
  assume "indexOf s p \<noteq> - 1"
  then have "occursAt s p (nat (indexOf s p))" using indexOf_firstAt by (simp add: firstAt_def)
  moreover from this have "nat (indexOf s p) \<le> length s" by (simp add: occursAt_def)
  ultimately show "contains s p" by (auto simp: contains_def)
qed

declare indexOf_contains [code]

lemma firstAt_unique: "firstAt s p i \<Longrightarrow> firstAt s p j \<Longrightarrow> i = j"
proof (rule ccontr)
  assume a: "firstAt s p i" "firstAt s p j" and n: "i \<noteq> j"
  then consider "i < j" | "j < i" by arith
  then show False
  proof cases
    case 1 then show False using a by (auto simp: firstAt_def)
  next
    case 2 then show False using a by (auto simp: firstAt_def)
  qed
qed

lemma slice_within:
  "0 \<le> a \<Longrightarrow> 0 \<le> b \<Longrightarrow> nat a \<le> length s \<Longrightarrow> nat b \<le> length s \<Longrightarrow>
   slice s a b = take (nat b - nat a) (drop (nat a) s)"
  by (simp add: slice_def sliceIndex_def Let_def min_def)

lemma sliceFrom_within:
  "0 \<le> a \<Longrightarrow> nat a \<le> length s \<Longrightarrow> sliceFrom s a = drop (nat a) s"
  by (simp add: sliceFrom_def sliceIndex_def min_def)

lemma mergeWithExisting_found:
  assumes "indexOf existing AUTO_GEN_START \<noteq> - 1" and "indexOf existing AUTO_GEN_END \<noteq> - 1"
    and "indexOf new AUTO_GEN_START \<noteq> - 1" and "indexOf new AUTO_GEN_END \<noteq> - 1"
  shows "mergeWithExisting existing new
       = take (nat (indexOf existing AUTO_GEN_START)) existing
         @ take (nat (indexOf new AUTO_GEN_END) + length AUTO_GEN_END - nat (indexOf new AUTO_GEN_START))
             (drop (nat (indexOf new AUTO_GEN_START)) new)
         @ drop (nat (indexOf existing AUTO_GEN_END) + length AUTO_GEN_END) existing"
proof -
  let ?i = "indexOf existing AUTO_GEN_START" and ?j = "indexOf existing AUTO_GEN_END"
  let ?k = "indexOf new AUTO_GEN_START" and ?l = "indexOf new AUTO_GEN_END"
  have ge: "0 \<le> ?i" "0 \<le> ?j" "0 \<le> ?k" "0 \<le> ?l"
    using assms indexOf_ge [of existing AUTO_GEN_START] indexOf_ge [of existing AUTO_GEN_END]
      indexOf_ge [of new AUTO_GEN_START] indexOf_ge [of new AUTO_GEN_END] by arith+
  have oi: "occursAt existing AUTO_GEN_START (nat ?i)" and oj: "occursAt existing AUTO_GEN_END (nat ?j)"
    and ok: "occursAt new AUTO_GEN_START (nat ?k)" and ol: "occursAt new AUTO_GEN_END (nat ?l)"
    using assms indexOf_firstAt by (simp_all add: firstAt_def)
  have before: "slice existing 0 ?i = take (nat ?i) existing"
    using ge oi by (simp add: slice_within occursAt_def)
  have after: "sliceFrom existing (?j + int (length AUTO_GEN_END))
      = drop (nat ?j + length AUTO_GEN_END) existing"
    using ge oj by (simp add: sliceFrom_within occursAt_def nat_add_distrib)
  have part: "slice new ?k (?l + int (length AUTO_GEN_END))
      = take (nat ?l + length AUTO_GEN_END - nat ?k) (drop (nat ?k) new)"
    using ge ok ol by (simp add: slice_within occursAt_def nat_add_distrib)
  show ?thesis
    using assms by (simp only: mergeWithExisting_def Let_def before after part if_False simp_thms)
qed

lemma occursAt_nth: "occursAt s p i \<Longrightarrow> d < length p \<Longrightarrow> s ! (i + d) = p ! d"
proof -
  assume o: "occursAt s p i" and d: "d < length p"
  then have "p ! d = take (length p) (drop i s) ! d" by (simp add: occursAt_def)
  also have "\<dots> = drop i s ! d" using d by (rule nth_take)
  also have "\<dots> = s ! (i + d)" using o d by (intro nth_drop) (simp add: occursAt_def)
  finally show ?thesis by simp
qed

lemma marker_facts:
  "length AUTO_GEN_START = 31" "length AUTO_GEN_END = 29"
  "AUTO_GEN_START ! 22 \<noteq> AUTO_GEN_END ! 22" "AUTO_GEN_START ! 2 \<noteq> AUTO_GEN_END ! 1"
  "AUTO_GEN_END ! 0 \<notin> set (drop 2 AUTO_GEN_START)"
  "AUTO_GEN_START ! 1 \<noteq> AUTO_GEN_END ! 2"
  "AUTO_GEN_START ! 0 \<notin> set (drop 2 AUTO_GEN_END)"
  by code_simp+

lemma nth_in_drop: "m \<le> d \<Longrightarrow> d < length xs \<Longrightarrow> xs ! d \<in> set (drop m xs)"
proof -
  assume m: "m \<le> d" and d: "d < length xs"
  have "drop m xs ! (d - m) = xs ! (m + (d - m))" using d m by (intro nth_drop) simp
  then have "xs ! d = drop m xs ! (d - m)" using m by simp
  moreover have "d - m < length (drop m xs)" using m d by simp
  ultimately show ?thesis using nth_mem [of "d - m" "drop m xs"] by simp
qed

text \<open>
  The two markers do not overlap: an end marker that begins at or after the beginning of a
  start marker begins after its end, and a start marker that begins after the beginning of
  an end marker begins after its end.
\<close>

lemma markers_apart:
  assumes s: "occursAt t AUTO_GEN_START k" and e: "occursAt t AUTO_GEN_END l" and "k \<le> l"
  shows "k + length AUTO_GEN_START \<le> l"
proof (rule ccontr)
  assume "\<not> k + length AUTO_GEN_START \<le> l"
  then have lt: "l - k < 31" using marker_facts(1) by simp
  have l: "l = k + (l - k)" using assms(3) by simp
  consider "l - k = 0" | "l - k = 1" | "2 \<le> l - k" by arith
  then show False
  proof cases
    case 1
    then have "l = k" using l by simp
    then have "AUTO_GEN_START ! 22 = AUTO_GEN_END ! 22"
      using occursAt_nth [OF s, of 22] occursAt_nth [OF e, of 22] marker_facts(1,2) by simp
    then show False using marker_facts(3) by simp
  next
    case 2
    then have "l + 1 = k + 2" using l by simp
    then have "AUTO_GEN_START ! 2 = AUTO_GEN_END ! 1"
      using occursAt_nth [OF s, of 2] occursAt_nth [OF e, of 1] marker_facts(1,2) by simp
    then show False using marker_facts(4) by simp
  next
    case 3
    have "t ! (k + (l - k)) = AUTO_GEN_START ! (l - k)"
      using lt marker_facts(1) by (intro occursAt_nth [OF s]) simp
    moreover have "t ! (l + 0) = AUTO_GEN_END ! 0"
      using marker_facts(2) by (intro occursAt_nth [OF e]) simp
    ultimately have eq: "AUTO_GEN_START ! (l - k) = AUTO_GEN_END ! 0" using l by simp
    have "AUTO_GEN_START ! (l - k) \<in> set (drop 2 AUTO_GEN_START)"
      using 3 lt marker_facts(1) by (intro nth_in_drop) simp_all
    then show False using eq marker_facts(5) by simp
  qed
qed

lemma markers_apart_reversed:
  assumes s: "occursAt t AUTO_GEN_START k" and e: "occursAt t AUTO_GEN_END l" and "l < k"
  shows "l + length AUTO_GEN_END \<le> k"
proof (rule ccontr)
  assume "\<not> l + length AUTO_GEN_END \<le> k"
  then have lt: "k - l < 29" using marker_facts(2) by simp
  have k: "k = l + (k - l)" using assms(3) by simp
  consider "k - l = 1" | "2 \<le> k - l" using assms(3) by arith
  then show False
  proof cases
    case 1
    then have "k + 1 = l + 2" using k by simp
    then have "AUTO_GEN_START ! 1 = AUTO_GEN_END ! 2"
      using occursAt_nth [OF s, of 1] occursAt_nth [OF e, of 2] marker_facts(1,2) by simp
    then show False using marker_facts(6) by simp
  next
    case 2
    have "t ! (l + (k - l)) = AUTO_GEN_END ! (k - l)"
      using lt marker_facts(2) by (intro occursAt_nth [OF e]) simp
    moreover have "t ! (k + 0) = AUTO_GEN_START ! 0"
      using marker_facts(1) by (intro occursAt_nth [OF s]) simp
    ultimately have eq: "AUTO_GEN_END ! (k - l) = AUTO_GEN_START ! 0" using k by simp
    have "AUTO_GEN_END ! (k - l) \<in> set (drop 2 AUTO_GEN_END)"
      using 2 lt marker_facts(2) by (intro nth_in_drop) simp_all
    then show False using eq marker_facts(7) by simp
  qed
qed

lemma region_between_markers:
  assumes s: "occursAt t AUTO_GEN_START k" and e: "occursAt t AUTO_GEN_END l"
    and le: "k + length AUTO_GEN_START \<le> l"
  shows "take (l + length AUTO_GEN_END - k) (drop k t)
       = AUTO_GEN_START
         @ take (l - (k + length AUTO_GEN_START)) (drop (k + length AUTO_GEN_START) t)
         @ AUTO_GEN_END"
proof -
  let ?a = "length AUTO_GEN_START" and ?c = "length AUTO_GEN_END"
  let ?b = "l - (k + ?a)"
  have n: "l + ?c - k = ?a + (?b + ?c)" using le by simp
  have "take (?a + (?b + ?c)) (drop k t)
      = take ?a (drop k t) @ take ?b (drop ?a (drop k t)) @ take ?c (drop ?b (drop ?a (drop k t)))"
    by (simp only: take_add)
  moreover have "take ?a (drop k t) = AUTO_GEN_START" using s by (simp add: occursAt_def)
  moreover have "drop ?b (drop ?a (drop k t)) = drop l t" using le by simp
  moreover have "take ?c (drop l t) = AUTO_GEN_END" using e by (simp add: occursAt_def)
  moreover have "drop ?a (drop k t) = drop (k + ?a) t" by (simp add: add.commute)
  ultimately show ?thesis by (simp only: n)
qed

lemma spliced_part:
  assumes s: "occursAt t AUTO_GEN_START k" and e: "occursAt t AUTO_GEN_END l"
  shows "take (l + length AUTO_GEN_END - k) (drop k t)
       = (if k \<le> l
          then AUTO_GEN_START
               @ take (l - (k + length AUTO_GEN_START)) (drop (k + length AUTO_GEN_START) t)
               @ AUTO_GEN_END
          else [])"
proof (cases "k \<le> l")
  case True
  then show ?thesis
    using region_between_markers [OF s e markers_apart [OF s e True]] by simp
next
  case False
  then have "l < k" by simp
  from markers_apart_reversed [OF s e this] show ?thesis using False by simp
qed

text \<open>
  C1, as the code has it. When the prior text and the new text both contain both markers,
  the merged text is the prior text before its first start marker, then a part of the new
  text, then the prior text after its first end marker; so what the prior text has before
  its start marker and after its end marker is kept as it is. When the first start marker
  of the new text does not come after its first end marker, the part taken from the new
  text is the start marker, the text between the two markers as it stands, and the end
  marker. When it comes after it, nothing is taken from the new text.
\<close>

theorem mergeWithExisting_splices:
  assumes "contains existing AUTO_GEN_START" and "contains existing AUTO_GEN_END"
    and "contains new AUTO_GEN_START" and "contains new AUTO_GEN_END"
  shows "\<exists>i j k l.
           firstAt existing AUTO_GEN_START i \<and> firstAt existing AUTO_GEN_END j \<and>
           firstAt new AUTO_GEN_START k \<and> firstAt new AUTO_GEN_END l \<and>
           mergeWithExisting existing new
             = take i existing
               @ (if k \<le> l
                  then AUTO_GEN_START
                       @ take (l - (k + length AUTO_GEN_START)) (drop (k + length AUTO_GEN_START) new)
                       @ AUTO_GEN_END
                  else [])
               @ drop (j + length AUTO_GEN_END) existing"
proof -
  have n: "indexOf existing AUTO_GEN_START \<noteq> - 1" "indexOf existing AUTO_GEN_END \<noteq> - 1"
    "indexOf new AUTO_GEN_START \<noteq> - 1" "indexOf new AUTO_GEN_END \<noteq> - 1"
    using assms by (simp_all add: indexOf_contains)
  let ?i = "nat (indexOf existing AUTO_GEN_START)" and ?j = "nat (indexOf existing AUTO_GEN_END)"
  let ?k = "nat (indexOf new AUTO_GEN_START)" and ?l = "nat (indexOf new AUTO_GEN_END)"
  note f = indexOf_firstAt [OF n(1)] indexOf_firstAt [OF n(2)]
    indexOf_firstAt [OF n(3)] indexOf_firstAt [OF n(4)]
  have s: "occursAt new AUTO_GEN_START ?k" and e: "occursAt new AUTO_GEN_END ?l"
    using f(3,4) by (simp_all add: firstAt_def)
  have "mergeWithExisting existing new
      = take ?i existing
        @ (if ?k \<le> ?l
           then AUTO_GEN_START
                @ take (?l - (?k + length AUTO_GEN_START)) (drop (?k + length AUTO_GEN_START) new)
                @ AUTO_GEN_END
           else [])
        @ drop (?j + length AUTO_GEN_END) existing"
    by (simp only: mergeWithExisting_found [OF n] spliced_part [OF s e])
  then show ?thesis
    using f by blast
qed

theorem mergeWithExisting_splices_witness:
  "(\<exists>i j k l.
      firstAt priorFileExample AUTO_GEN_START i \<and> firstAt priorFileExample AUTO_GEN_END j \<and>
      firstAt newFileExample AUTO_GEN_START k \<and> firstAt newFileExample AUTO_GEN_END l \<and>
      mergeWithExisting priorFileExample newFileExample
        = take i priorFileExample
          @ (if k \<le> l
             then AUTO_GEN_START
                  @ take (l - (k + length AUTO_GEN_START)) (drop (k + length AUTO_GEN_START) newFileExample)
                  @ AUTO_GEN_END
             else [])
          @ drop (j + length AUTO_GEN_END) priorFileExample) \<and>
   mergeWithExisting priorFileExample newFileExample
     = ''// notes kept by hand'' @ newline @ AUTO_GEN_START @ newline
       @ ''export const getB = () => {}'' @ newline @ AUTO_GEN_END @ newline
       @ ''export const mine = () => 1'' @ newline"
proof -
  have "indexOf priorFileExample AUTO_GEN_START \<noteq> - 1" "indexOf priorFileExample AUTO_GEN_END \<noteq> - 1"
    "indexOf newFileExample AUTO_GEN_START \<noteq> - 1" "indexOf newFileExample AUTO_GEN_END \<noteq> - 1"
    by code_simp+
  then have c: "contains priorFileExample AUTO_GEN_START" "contains priorFileExample AUTO_GEN_END"
    "contains newFileExample AUTO_GEN_START" "contains newFileExample AUTO_GEN_END"
    by (simp_all add: indexOf_contains)
  have v: "mergeWithExisting priorFileExample newFileExample
     = ''// notes kept by hand'' @ newline @ AUTO_GEN_START @ newline
       @ ''export const getB = () => {}'' @ newline @ AUTO_GEN_END @ newline
       @ ''export const mine = () => 1'' @ newline"
    by code_simp
  from mergeWithExisting_splices [OF c] v show ?thesis
    by (rule conjI)
qed

text \<open>
  A generated file whose import line holds the text of the end marker contains both
  markers, the first end marker before the start marker. Merged into a prior file with
  both markers, it leaves only what the prior file has outside its markers: the result has
  no marker and nothing of the generated region.
\<close>

theorem mergeWithExisting_region_counterexample:
  "contains priorFileExample AUTO_GEN_START \<and> contains priorFileExample AUTO_GEN_END \<and>
   contains (generateApiFile [] ''./types'' markerImportConfig) AUTO_GEN_START \<and>
   contains (generateApiFile [] ''./types'' markerImportConfig) AUTO_GEN_END \<and>
   mergeWithExisting priorFileExample (generateApiFile [] ''./types'' markerImportConfig)
     = ''// notes kept by hand'' @ newline @ newline @ ''export const mine = () => 1'' @ newline \<and>
   \<not> contains (mergeWithExisting priorFileExample (generateApiFile [] ''./types'' markerImportConfig))
         AUTO_GEN_START"
  unfolding indexOf_contains by code_simp


section \<open>The type-declaration file\<close>

lemma buildTypeMap_keys:
  "set (map fst (buildTypeMap ts m)) = set (map fst m) \<union> typeName ` set ts"
proof (induction ts arbitrary: m)
  case Nil
  then show ?case by simp
next
  case (Cons t ts)
  show ?case
  proof (cases "map_of m (typeName t) = None")
    case True
    then show ?thesis using Cons.IH [of "m @ [(typeName t, t)]"] by auto
  next
    case False
    then have "typeName t \<in> set (map fst m)"
      by (metis map_of_eq_None_iff set_map)
    then show ?thesis using False Cons.IH [of m] by auto
  qed
qed

lemma buildTypeMap_distinct:
  "distinct (map fst m) \<Longrightarrow> distinct (map fst (buildTypeMap ts m))"
proof (induction ts arbitrary: m)
  case Nil
  then show ?case by simp
next
  case (Cons t ts)
  show ?case
  proof (cases "map_of m (typeName t) = None")
    case True
    then have "typeName t \<notin> fst ` set m" by (simp add: map_of_eq_None_iff)
    then have "distinct (map fst (m @ [(typeName t, t)]))" using Cons.prems by simp
    then show ?thesis using True Cons.IH [of "m @ [(typeName t, t)]"] by simp
  next
    case False
    then have "buildTypeMap (t # ts) m = buildTypeMap ts m" by auto
    then show ?thesis using Cons.IH [OF Cons.prems] by simp
  qed
qed

lemma buildTypeMap_first:
  "(k, t) \<in> set (buildTypeMap ts m) \<Longrightarrow>
   (k, t) \<in> set m \<or> (k \<notin> fst ` set m \<and> find (\<lambda>u. typeName u = k) ts = Some t)"
proof (induction ts arbitrary: m)
  case Nil
  then show ?case by simp
next
  case (Cons a ts)
  show ?case
  proof (cases "map_of m (typeName a) = None")
    case True
    then have notin: "typeName a \<notin> fst ` set m" by (simp add: map_of_eq_None_iff)
    from Cons.prems True have "(k, t) \<in> set (buildTypeMap ts (m @ [(typeName a, a)]))" by simp
    from Cons.IH [OF this]
    consider "(k, t) \<in> set m" | "(k, t) = (typeName a, a)"
      | "k \<notin> fst ` set (m @ [(typeName a, a)])" "find (\<lambda>u. typeName u = k) ts = Some t"
      by auto
    then show ?thesis
    proof cases
      case 1 then show ?thesis by simp
    next
      case 2 then show ?thesis using notin by simp
    next
      case 3
      then have "k \<noteq> typeName a" and "k \<notin> fst ` set m" by auto
      then show ?thesis using 3 by simp
    qed
  next
    case False
    then have isin: "typeName a \<in> fst ` set m" by (simp add: map_of_eq_None_iff)
    from Cons.prems False have "(k, t) \<in> set (buildTypeMap ts m)" by simp
    from Cons.IH [OF this] show ?thesis using isin by auto
  qed
qed

text \<open>
  C2, as the code has it. The file holds the header, then one declaration for each display
  name that occurs in the list, then the parameter types. The declaration of a display
  name is that of the first parsed type of the list with that name: a later type with the
  same display name is not entered in the map.
\<close>

theorem generateTypesFile_first_wins:
  "\<exists>decls.
     generateTypesFile types apis config
       = join (typesFileHeader
           @ concat (map (\<lambda>t. [generateTypeDefinition (typeName t) (typeSchema t) config, []]) decls)
           @ queryParamsBlocks apis config) newline \<and>
     distinct (map typeName decls) \<and>
     set (map typeName decls) = typeName ` set types \<and>
     (\<forall>d\<in>set decls. find (\<lambda>u. typeName u = typeName d) types = Some d)"
proof -
  let ?m = "buildTypeMap types []"
  let ?decls = "map snd ?m"
  have first: "find (\<lambda>u. typeName u = k) types = Some t" if "(k, t) \<in> set ?m" for k t
    using buildTypeMap_first [OF that] by simp
  have key: "k = typeName t" if "(k, t) \<in> set ?m" for k t
    using first [OF that] by (auto dest: find_Some_iff [THEN iffD1])
  have fs: "map fst ?m = map typeName ?decls"
    using key by (auto simp: map_eq_conv)
  have "map (\<lambda>(k, t). [generateTypeDefinition (typeName t) (typeSchema t) config, []]) ?m
      = map (\<lambda>t. [generateTypeDefinition (typeName t) (typeSchema t) config, []]) ?decls"
    by (simp add: case_prod_beta)
  then have whole: "generateTypesFile types apis config
       = join (typesFileHeader
           @ concat (map (\<lambda>t. [generateTypeDefinition (typeName t) (typeSchema t) config, []]) ?decls)
           @ queryParamsBlocks apis config) newline"
    by (simp only: generateTypesFile_def Let_def)
  have d: "distinct (map typeName ?decls)"
    using buildTypeMap_distinct [of "[]" types] fs by simp
  have s: "set (map typeName ?decls) = typeName ` set types"
    using buildTypeMap_keys [of types "[]"] fs by simp
  have f: "\<forall>d\<in>set ?decls. find (\<lambda>u. typeName u = typeName d) types = Some d"
  proof
    fix d assume "d \<in> set ?decls"
    then obtain k where m: "(k, d) \<in> set ?m" by auto
    then show "find (\<lambda>u. typeName u = typeName d) types = Some d"
      using first [OF m] key [OF m] by simp
  qed
  show ?thesis using whole d s f by blast
qed

theorem generateTypesFile_first_wins_witness:
  "(\<exists>decls.
     generateTypesFile [itemA, itemB] [] defaultConfig
       = join (typesFileHeader
           @ concat (map (\<lambda>t. [generateTypeDefinition (typeName t) (typeSchema t) defaultConfig, []]) decls)
           @ queryParamsBlocks [] defaultConfig) newline \<and>
     distinct (map typeName decls) \<and>
     set (map typeName decls) = typeName ` set [itemA, itemB] \<and>
     (\<forall>d\<in>set decls. find (\<lambda>u. typeName u = typeName d) [itemA, itemB] = Some d)) \<and>
   generateTypesFile [itemA, itemB] [] defaultConfig
     = join (typesFileHeader @ [''export type Item = string'', []]) newline"
proof -
  have "generateTypesFile [itemA, itemB] [] defaultConfig
     = join (typesFileHeader @ [''export type Item = string'', []]) newline"
    by code_simp
  with generateTypesFile_first_wins [of "[itemA, itemB]" "[]" defaultConfig] show ?thesis
    by (rule conjI)
qed

text \<open>
  Two parsed types with different original names and the same display name: the file holds
  the declaration of the first one, and is not the file with the declaration of the last
  one.
\<close>

theorem generateTypesFile_last_wins_counterexample:
  "originalName itemA \<noteq> originalName itemB \<and> typeName itemA = typeName itemB \<and>
   generateTypesFile [itemA, itemB] [] defaultConfig
     = join (typesFileHeader @ [''export type Item = string'', []]) newline \<and>
   generateTypesFile [itemA, itemB] [] defaultConfig
     \<noteq> join (typesFileHeader @ [''export type Item = number'', []]) newline"
  by code_simp

section \<open>Excluded fields\<close>

lemma propertyLines_excluded:
  "propertyLines entries requiredNames config
     = propertyLines (filter (\<lambda>(k, v). k \<notin> set (excludeFields config)) entries) requiredNames config"
  by (simp add: propertyLines_def)

text \<open>
  C3 at a nested object. The field \<^verbatim>\<open>token\<close> is excluded; it is left out of the
  properties of the interface itself, but the inline rendering of an object does not look
  at the exclusion list, so the field is printed there, also inside a declaration.
\<close>

theorem schemaToTsType_prints_excluded_field:
  "''token'' \<in> set (excludeFields excludeTokenConfig) \<and>
   schemaToTsType deviceSchema excludeTokenConfig = ''{ token?: string; id?: number }'' \<and>
   generateTypeDefinition ''Login'' loginSchema excludeTokenConfig
     = ''export interface Login {'' @ newline
       @ ''  device?: { token?: string; id?: number }'' @ newline @ ''}''"
  by code_simp


section \<open>The imports of the function file\<close>

lemma set_setAdd: "set (setAdd xs x) = insert x (set xs)"
  by (auto simp: setAdd_def)

lemma distinct_setAdd: "distinct xs \<Longrightarrow> distinct (setAdd xs x)"
  by (simp add: setAdd_def)

lemma collect_step_set:
  "set (foldl (\<lambda>acc t. (let baseName = extractBaseTypeName t
                          in if baseName \<in> set BUILTIN_TYPES then acc else setAdd acc baseName)) acc ts)
   = set acc \<union> {b. \<exists>t\<in>set ts. b = extractBaseTypeName t \<and> b \<notin> set BUILTIN_TYPES}"
  by (induction ts arbitrary: acc) (auto simp: Let_def set_setAdd)

lemma collect_step_distinct:
  "distinct acc \<Longrightarrow>
   distinct (foldl (\<lambda>acc t. (let baseName = extractBaseTypeName t
                          in if baseName \<in> set BUILTIN_TYPES then acc else setAdd acc baseName)) acc ts)"
  by (induction ts arbitrary: acc) (auto simp: Let_def distinct_setAdd)

lemma collect_apis_set:
  "set (foldl (\<lambda>typeNames api.
             foldl (\<lambda>acc t. (let baseName = extractBaseTypeName t
                          in if baseName \<in> set BUILTIN_TYPES then acc else setAdd acc baseName))
               typeNames (referencedTypeNames api)) acc apis)
   = set acc \<union> {b. \<exists>api\<in>set apis. \<exists>t\<in>set (referencedTypeNames api).
                      b = extractBaseTypeName t \<and> b \<notin> set BUILTIN_TYPES}"
proof (induction apis arbitrary: acc)
  case Nil
  then show ?case by simp
next
  case (Cons a apis)
  show ?case
    unfolding foldl_Cons Cons.IH collect_step_set by auto
qed

lemma collect_apis_distinct:
  "distinct acc \<Longrightarrow>
   distinct (foldl (\<lambda>typeNames api.
             foldl (\<lambda>acc t. (let baseName = extractBaseTypeName t
                          in if baseName \<in> set BUILTIN_TYPES then acc else setAdd acc baseName))
               typeNames (referencedTypeNames api)) acc apis)"
proof (induction apis arbitrary: acc)
  case Nil
  then show ?case by simp
next
  case (Cons a apis)
  show ?case
    unfolding foldl_Cons by (rule Cons.IH) (rule collect_step_distinct [OF Cons.prems])
qed

lemma set_collectTypeNames:
  "set (collectTypeNames apis)
   = {b. \<exists>api\<in>set apis. \<exists>t\<in>set (referencedTypeNames api).
            b = extractBaseTypeName t \<and> b \<notin> set BUILTIN_TYPES}"
  unfolding collectTypeNames_def collect_apis_set by simp

lemma distinct_collectTypeNames: "distinct (collectTypeNames apis)"
  unfolding collectTypeNames_def by (rule collect_apis_distinct) simp

lemma join_two: "join [a, b] sep = a @ sep @ b"
  by simp

text \<open>
  The shape of the file. After the header the file has the import of the request client and
  then, when a name is left, one type-only import. Its names are the type names that the
  operations refer to as parameters, body or response type, each without one array suffix
  at its end, and without those that are then equal to an entry of the list of built-in
  types; each name stands once, and the names are in ascending order.
\<close>

lemma generateApiFile_imports_shape:
  "\<exists>names.
     generateApiFile apis typesImportPath config
       = join (apiFileHeader
           @ [requestImportLine config
                @ (if names = [] then [] else newline @ typeImportLine names typesImportPath), []]
           @ [AUTO_GEN_START, []]
           @ concat (map (\<lambda>api. [generateApiFunction api config, []]) apis)
           @ [AUTO_GEN_END, []]) newline \<and>
     sorted names \<and> distinct names \<and>
     set names = {b. \<exists>api\<in>set apis. \<exists>t\<in>set (referencedTypeNames api).
                       b = extractBaseTypeName t \<and> b \<notin> set BUILTIN_TYPES}"
proof -
  let ?names = "sort (collectTypeNames apis)"
  have e: "(collectTypeNames apis = []) = (?names = [])"
    by (metis length_sort length_0_conv)
  have "generateImports apis typesImportPath config
      = requestImportLine config
        @ (if ?names = [] then [] else newline @ typeImportLine ?names typesImportPath)"
    using e by (simp add: generateImports_def Let_def)
  then have whole: "generateApiFile apis typesImportPath config
       = join (apiFileHeader
           @ [requestImportLine config
                @ (if ?names = [] then [] else newline @ typeImportLine ?names typesImportPath), []]
           @ [AUTO_GEN_START, []]
           @ concat (map (\<lambda>api. [generateApiFunction api config, []]) apis)
           @ [AUTO_GEN_END, []]) newline"
    by (simp only: generateApiFile_def)
  have s: "sorted ?names" by simp
  have d: "distinct ?names" by (simp add: distinct_collectTypeNames)
  have m: "set ?names = {b. \<exists>api\<in>set apis. \<exists>t\<in>set (referencedTypeNames api).
                       b = extractBaseTypeName t \<and> b \<notin> set BUILTIN_TYPES}"
    by (simp add: set_collectTypeNames)
  show ?thesis using whole s d m by blast
qed

text \<open>
  C9 at a response that is not a plain type name. The list of built-in types names the
  primitive types and the utility types \<^verbatim>\<open>Record\<close>, \<^verbatim>\<open>Partial\<close>,
  \<^verbatim>\<open>Array\<close> and others, but a name is compared with the list as a whole, after
  one array suffix is cut off. The response type of an envelope whose data is an inline
  object is \<^verbatim>\<open>Record<string, unknown>\<close>, which is not an entry of the list, and it
  is imported from the types file; a list of lists of users is imported as
  \<^verbatim>\<open>User[]\<close>, and a list of lists of texts as \<^verbatim>\<open>string[]\<close>.
\<close>

theorem generateImports_imports_utility_type:
  "api_responseTypeName statsApi = Some ''Record<string, unknown>'' \<and>
   api_responseTypeName userPagesApi = Some ''User[][]'' \<and>
   api_responseTypeName tagPagesApi = Some ''string[][]'' \<and>
   ''Record'' \<in> set BUILTIN_TYPES \<and> ''string'' \<in> set BUILTIN_TYPES \<and>
   generateImports [statsApi] ''./types'' defaultConfig
     = ''import { requestClient } from '' @ apostrophe @ ''@/utils/request'' @ apostrophe @ newline
       @ ''import type { Record<string, unknown> } from '' @ apostrophe @ ''./types'' @ apostrophe \<and>
   generateImports [statsApi, userPagesApi, tagPagesApi] ''./types'' defaultConfig
     = ''import { requestClient } from '' @ apostrophe @ ''@/utils/request'' @ apostrophe @ newline
       @ ''import type { Record<string, unknown>, User[], string[] } from ''
       @ apostrophe @ ''./types'' @ apostrophe \<and>
   contains (generateApiFile [statsApi] ''./types'' defaultConfig)
     (newline @ ''import type { Record<string, unknown> } from '' @ apostrophe @ ''./types''
        @ apostrophe @ newline)"
  by code_simp

section \<open>Regenerating over an unchanged file\<close>

lemma mergeWithExisting_missing:
  "indexOf t AUTO_GEN_START = - 1 \<or> indexOf t AUTO_GEN_END = - 1 \<Longrightarrow> mergeWithExisting t new = new"
  by (auto simp: mergeWithExisting_def Let_def)

lemma mergeWithExisting_self:
  assumes "indexOf t AUTO_GEN_START \<noteq> - 1" and "indexOf t AUTO_GEN_END \<noteq> - 1"
    and "nat (indexOf t AUTO_GEN_START) \<le> nat (indexOf t AUTO_GEN_END) + length AUTO_GEN_END"
  shows "mergeWithExisting t t = t"
proof -
  let ?k = "nat (indexOf t AUTO_GEN_START)" and ?e = "nat (indexOf t AUTO_GEN_END) + length AUTO_GEN_END"
  have "take (?e - ?k) (drop ?k t) @ drop ?e t = take (?e - ?k) (drop ?k t) @ drop (?e - ?k) (drop ?k t)"
    using assms(3) by simp
  also have "\<dots> = drop ?k t" by (rule append_take_drop_id)
  finally have "take ?k t @ take (?e - ?k) (drop ?k t) @ drop ?e t = t" by simp
  then show ?thesis
    using mergeWithExisting_found [OF assms(1,2) assms(1,2)] by simp
qed

lemma firstAt_indexOf: "firstAt s p i \<Longrightarrow> indexOf s p \<noteq> - 1 \<and> nat (indexOf s p) = i"
proof -
  assume f: "firstAt s p i"
  then have "occursAt s p i" by (simp add: firstAt_def)
  then have n: "indexOf s p \<noteq> - 1" using indexOf_none by blast
  from indexOf_firstAt [OF n] f have "nat (indexOf s p) = i" by (rule firstAt_unique)
  with n show ?thesis by simp
qed

lemma occursAt_first_le:
  assumes "occursAt s p i"
  shows "indexOf s p \<noteq> - 1 \<and> nat (indexOf s p) \<le> i"
proof -
  have n: "indexOf s p \<noteq> - 1" using assms indexOf_none by blast
  from indexOf_firstAt [OF n] have "\<forall>j\<in>{0..<nat (indexOf s p)}. \<not> occursAt s p j"
    by (simp add: firstAt_def)
  then have "\<not> i < nat (indexOf s p)" using assms by auto
  with n show ?thesis by simp
qed

lemma occursAt_append_mid: "occursAt (a @ p @ b) p (length a)"
  by (simp add: occursAt_def)

text \<open>An occurrence of a text without line breaks does not reach across a line break.\<close>

lemma occursAt_line:
  assumes "occursAt (a @ c # b) p i" and "c \<notin> set p"
  shows "occursAt a p i \<or> (\<exists>j. occursAt b p j)"
proof -
  from assms(1) have len: "i + length p \<le> length a + Suc (length b)"
    and eq: "take (length p) (drop i (a @ c # b)) = p"
    by (simp_all add: occursAt_def)
  consider "i + length p \<le> length a" | "length a < i" | "i \<le> length a" "length a < i + length p"
    by arith
  then show ?thesis
  proof cases
    case 1
    then have "take (length p) (drop i (a @ c # b)) = take (length p) (drop i a)"
      by simp
    then show ?thesis using 1 eq by (simp add: occursAt_def)
  next
    case 2
    then obtain j where j: "i = length a + Suc j" using less_iff_Suc_add [of "length a" i] by auto
    then have "drop i (a @ c # b) = drop j b" by simp
    then have "occursAt b p j" using eq len j by (simp add: occursAt_def)
    then show ?thesis by blast
  next
    case 3
    let ?d = "length a - i"
    have dl: "?d < length p" using 3 by arith
    have "p ! ?d = take (length p) (drop i (a @ c # b)) ! ?d" using eq by simp
    also have "\<dots> = drop i (a @ c # b) ! ?d" using dl by (rule nth_take)
    also have "\<dots> = (a @ c # b) ! (i + ?d)" using 3 by (intro nth_drop) simp
    also have "i + ?d = length a" using 3 by simp
    also have "(a @ c # b) ! length a = c" by simp
    finally have "c = p ! ?d" by simp
    then have "c \<in> set p" using dl by simp
    then show ?thesis using assms(2) by simp
  qed
qed

lemma occursAt_contains: "occursAt s p i \<Longrightarrow> contains s p"
  by (auto simp: contains_def occursAt_def)

lemma join_append:
  "xs \<noteq> [] \<Longrightarrow> ys \<noteq> [] \<Longrightarrow> join (xs @ ys) sep = join xs sep @ sep @ join ys sep"
proof (induction xs sep rule: join.induct)
  case (1 sep)
  then show ?case by simp
next
  case (2 x sep)
  then show ?case by (cases ys) simp_all
next
  case (3 x y ys' sep)
  then show ?case by simp
qed

lemma join_snoc: "xs \<noteq> [] \<Longrightarrow> join (xs @ [y]) sep = join xs sep @ sep @ y"
  by (simp add: join_append)

lemma occursAt_pattern_prefix: "occursAt s (p @ q) i \<Longrightarrow> occursAt s p i"
proof -
  assume o: "occursAt s (p @ q) i"
  then have "take (length p) (take (length (p @ q)) (drop i s)) = take (length p) (p @ q)"
    by (simp only: occursAt_def)
  then have "take (length p) (drop i s) = p" by (simp add: min_def)
  then show ?thesis using o by (simp add: occursAt_def)
qed

lemma apiFilePrefix_no_slashes: "indexOf apiFilePrefix ''//'' = - 1"
  by code_simp

lemma apiFilePrefix_no_end: "\<not> occursAt apiFilePrefix AUTO_GEN_END i"
proof
  assume "occursAt apiFilePrefix AUTO_GEN_END i"
  then have "occursAt apiFilePrefix (''//'' @ '' --- AUTO GENERATED END ---'') i"
    by (simp add: AUTO_GEN_END_def)
  then have "occursAt apiFilePrefix ''//'' i" by (rule occursAt_pattern_prefix)
  then show False using indexOf_none [OF apiFilePrefix_no_slashes] by blast
qed

lemma newline_not_in_end: "CHR 0x0A \<notin> set AUTO_GEN_END"
  by code_simp

lemma generateApiFile_shape:
  "\<exists>rest. generateApiFile apis typesImportPath config
     = (apiFilePrefix @ newline @ generateImports apis typesImportPath config @ newline @ newline)
       @ AUTO_GEN_START @ rest @ AUTO_GEN_END @ newline"
proof -
  let ?fns = "concat (map (\<lambda>api. [generateApiFunction api config, []]) apis)"
  let ?imp = "generateImports apis typesImportPath config"
  have h: "apiFileHeader \<noteq> []" by (simp add: apiFileHeader_def)
  have a: "join ((apiFileHeader @ [?imp, []]) @ ([AUTO_GEN_START, []] @ ?fns @ [AUTO_GEN_END, []])) newline
      = join (apiFileHeader @ [?imp, []]) newline @ newline
        @ join ([AUTO_GEN_START, []] @ ?fns @ [AUTO_GEN_END, []]) newline"
    by (rule join_append) simp_all
  have b: "join (apiFileHeader @ [?imp, []]) newline = apiFilePrefix @ newline @ ?imp @ newline"
    using h by (simp add: join_append apiFilePrefix_def)
  have c: "join (([AUTO_GEN_START, []] @ ?fns @ [AUTO_GEN_END]) @ [[]]) newline
      = join ([AUTO_GEN_START, []] @ ?fns @ [AUTO_GEN_END]) newline @ newline @ []"
    by (rule join_snoc) simp
  have d: "join (([AUTO_GEN_START, []] @ ?fns) @ [AUTO_GEN_END]) newline
      = join ([AUTO_GEN_START, []] @ ?fns) newline @ newline @ AUTO_GEN_END"
    by (rule join_snoc) simp
  have e: "join ([AUTO_GEN_START] @ ([] # ?fns)) newline
      = join [AUTO_GEN_START] newline @ newline @ join ([] # ?fns) newline"
    by (rule join_append) simp_all
  have "join ([AUTO_GEN_START, []] @ ?fns @ [AUTO_GEN_END, []]) newline
      = AUTO_GEN_START @ (newline @ join ([] # ?fns) newline @ newline) @ AUTO_GEN_END @ newline"
    using c d e by simp
  then have "generateApiFile apis typesImportPath config
      = (apiFilePrefix @ newline @ ?imp @ newline @ newline)
        @ AUTO_GEN_START @ (newline @ join ([] # ?fns) newline @ newline) @ AUTO_GEN_END @ newline"
    using a b by (simp add: generateApiFile_def)
  then show ?thesis by blast
qed

lemma no_end_before_start:
  assumes "\<not> contains imports AUTO_GEN_END"
  shows "\<not> occursAt (apiFilePrefix @ newline @ imports @ newline @ newline) AUTO_GEN_END i"
proof
  assume o: "occursAt (apiFilePrefix @ newline @ imports @ newline @ newline) AUTO_GEN_END i"
  have ne: "AUTO_GEN_END \<noteq> []" by (simp add: AUTO_GEN_END_def)
  from o have "occursAt (apiFilePrefix @ CHR 0x0A # (imports @ newline @ newline)) AUTO_GEN_END i"
    by (simp add: newline_def)
  from occursAt_line [OF this newline_not_in_end]
  obtain j where "occursAt (imports @ newline @ newline) AUTO_GEN_END j"
    using apiFilePrefix_no_end by blast
  then have "occursAt (imports @ CHR 0x0A # newline) AUTO_GEN_END j"
    by (simp add: newline_def)
  from occursAt_line [OF this newline_not_in_end]
  obtain j' where "occursAt newline AUTO_GEN_END j'"
    using assms occursAt_contains by blast
  then show False by (simp add: occursAt_def newline_def AUTO_GEN_END_def)
qed

lemma occursAt_in_prefix:
  assumes "occursAt (a @ b) p i" and "i + length p \<le> length a"
  shows "occursAt a p i"
proof -
  from assms(1) have "take (length p) (drop i (a @ b)) = p" by (simp add: occursAt_def)
  moreover have "take (length p) (drop i (a @ b)) = take (length p) (drop i a)"
    using assms(2) by simp
  ultimately show ?thesis using assms(2) by (simp add: occursAt_def)
qed

lemma mergeWithExisting_self_shape:
  assumes t: "t = a @ AUTO_GEN_START @ rest @ AUTO_GEN_END @ tail"
    and a: "\<forall>i. \<not> occursAt a AUTO_GEN_END i"
  shows "mergeWithExisting t t = t"
proof -
  have "occursAt (a @ AUTO_GEN_START @ (rest @ AUTO_GEN_END @ tail)) AUTO_GEN_START (length a)"
    by (rule occursAt_append_mid)
  then have "occursAt t AUTO_GEN_START (length a)" by (simp only: t)
  from occursAt_first_le [OF this]
  have s: "indexOf t AUTO_GEN_START \<noteq> - 1" and sl: "nat (indexOf t AUTO_GEN_START) \<le> length a"
    by blast+
  have "occursAt ((a @ AUTO_GEN_START @ rest) @ AUTO_GEN_END @ tail) AUTO_GEN_END
          (length (a @ AUTO_GEN_START @ rest))"
    by (rule occursAt_append_mid)
  then have "occursAt t AUTO_GEN_END (length (a @ AUTO_GEN_START @ rest))" by (simp only: t append_assoc)
  from occursAt_first_le [OF this]
  have e: "indexOf t AUTO_GEN_END \<noteq> - 1" by blast
  let ?l = "nat (indexOf t AUTO_GEN_END)"
  have "occursAt t AUTO_GEN_END ?l"
    using indexOf_firstAt [OF e] by (simp add: firstAt_def)
  then have ol: "occursAt (a @ (AUTO_GEN_START @ rest @ AUTO_GEN_END @ tail)) AUTO_GEN_END ?l"
    by (simp only: t)
  have "length a < ?l + length AUTO_GEN_END"
  proof (rule ccontr)
    assume "\<not> length a < ?l + length AUTO_GEN_END"
    then have "?l + length AUTO_GEN_END \<le> length a" by simp
    from occursAt_in_prefix [OF ol this] show False using a by blast
  qed
  then have "nat (indexOf t AUTO_GEN_START) \<le> ?l + length AUTO_GEN_END"
    using sl by arith
  with s e show ?thesis by (rule mergeWithExisting_self)
qed

lemma generateApiFile_merge_self:
  assumes "\<not> contains (generateImports apis typesImportPath config) AUTO_GEN_END"
  shows "mergeWithExisting (generateApiFile apis typesImportPath config)
           (generateApiFile apis typesImportPath config)
         = generateApiFile apis typesImportPath config"
proof -
  obtain rest where t: "generateApiFile apis typesImportPath config
      = (apiFilePrefix @ newline @ generateImports apis typesImportPath config @ newline @ newline)
        @ AUTO_GEN_START @ rest @ AUTO_GEN_END @ newline"
    using generateApiFile_shape by blast
  have "\<forall>i. \<not> occursAt (apiFilePrefix @ newline @ generateImports apis typesImportPath config
                          @ newline @ newline) AUTO_GEN_END i"
    using no_end_before_start [OF assms] by blast
  with t show ?thesis by (rule mergeWithExisting_self_shape)
qed

text \<open>
  C6, as the code has it. Merging a text with itself gives the text back when a marker
  is missing in it, or when its first start marker does not begin after the end of its
  first end marker. A generated function file is such a text whenever the end marker does
  not occur in its import lines, so regenerating over an unchanged generated file changes
  nothing.
\<close>

theorem mergeWithExisting_regenerate:
  "((\<not> contains t AUTO_GEN_START \<or> \<not> contains t AUTO_GEN_END \<or>
      (\<exists>k l. firstAt t AUTO_GEN_START k \<and> firstAt t AUTO_GEN_END l \<and> k \<le> l + length AUTO_GEN_END))
     \<longrightarrow> mergeWithExisting t t = t) \<and>
   (\<not> contains (generateImports apis typesImportPath config) AUTO_GEN_END \<longrightarrow>
      mergeWithExisting (generateApiFile apis typesImportPath config)
        (generateApiFile apis typesImportPath config)
      = generateApiFile apis typesImportPath config)"
proof (intro conjI impI)
  assume "\<not> contains t AUTO_GEN_START \<or> \<not> contains t AUTO_GEN_END \<or>
      (\<exists>k l. firstAt t AUTO_GEN_START k \<and> firstAt t AUTO_GEN_END l \<and> k \<le> l + length AUTO_GEN_END)"
  then consider "indexOf t AUTO_GEN_START = - 1 \<or> indexOf t AUTO_GEN_END = - 1"
    | k l where "firstAt t AUTO_GEN_START k" "firstAt t AUTO_GEN_END l" "k \<le> l + length AUTO_GEN_END"
    by (auto simp: indexOf_contains)
  then show "mergeWithExisting t t = t"
  proof cases
    case 1
    then show ?thesis by (rule mergeWithExisting_missing)
  next
    case 2
    from firstAt_indexOf [OF 2(1)] firstAt_indexOf [OF 2(2)] 2(3)
    show ?thesis by (intro mergeWithExisting_self) simp_all
  qed
next
  assume "\<not> contains (generateImports apis typesImportPath config) AUTO_GEN_END"
  then show "mergeWithExisting (generateApiFile apis typesImportPath config)
        (generateApiFile apis typesImportPath config)
      = generateApiFile apis typesImportPath config"
    by (rule generateApiFile_merge_self)
qed

theorem mergeWithExisting_regenerate_witness:
  "\<not> contains (generateImports [getUsersApi, postOrderApi] ''./types'' defaultConfig) AUTO_GEN_END \<and>
   mergeWithExisting (generateApiFile [getUsersApi, postOrderApi] ''./types'' defaultConfig)
     (generateApiFile [getUsersApi, postOrderApi] ''./types'' defaultConfig)
   = generateApiFile [getUsersApi, postOrderApi] ''./types'' defaultConfig"
proof -
  have "indexOf (generateImports [getUsersApi, postOrderApi] ''./types'' defaultConfig) AUTO_GEN_END = - 1"
    by code_simp
  then have h: "\<not> contains (generateImports [getUsersApi, postOrderApi] ''./types'' defaultConfig) AUTO_GEN_END"
    by (simp add: indexOf_contains)
  note r = mergeWithExisting_regenerate
    [of "[]" "[getUsersApi, postOrderApi]" "''./types''" defaultConfig, THEN conjunct2, THEN mp, OF h]
  show ?thesis using h r by (rule conjI)
qed

text \<open>
  With the text of the end marker as the import path of the request client, the first end
  marker of the generated file stands in its import line, before the start marker, and
  merging the file with itself gives another text.
\<close>

theorem mergeWithExisting_regenerate_counterexample:
  "mergeWithExisting (generateApiFile [] ''./types'' markerImportConfig)
     (generateApiFile [] ''./types'' markerImportConfig)
   \<noteq> generateApiFile [] ''./types'' markerImportConfig"
  by code_simp


section \<open>The reference closure\<close>

lemma finite_allRefs: "finite (allRefs ds)"
  by (simp add: allRefs_def)

lemma collectRefs_in_allRefs:
  "map_of ds k = Some schema \<Longrightarrow> set (collectRefs schema) \<subseteq> allRefs ds"
  by (auto simp: allRefs_def dest!: map_of_SomeD intro!: bexI [of _ "(k, schema)"])

lemma reachableRefs_mono:
  assumes "set stack' \<subseteq> reachableRefs ds pre stack"
  shows "reachableRefs ds pre stack' \<subseteq> reachableRefs ds pre stack"
proof
  fix r assume "r \<in> reachableRefs ds pre stack'"
  then show "r \<in> reachableRefs ds pre stack"
  proof (induction rule: reachableRefs.induct)
    case (used r)
    then show ?case using assms by blast
  next
    case (step r schema r')
    then show ?case by (blast intro: reachableRefs.step)
  qed
qed

lemma drain_induct:
  assumes fin: "finite A"
    and step: "\<And>stack P.
      (\<And>stack' P'.
          card ((A \<union> set stack') - set P') < card ((A \<union> set stack) - set P)
          \<or> (card ((A \<union> set stack') - set P') \<le> card ((A \<union> set stack) - set P)
              \<and> length stack' < length stack)
          \<Longrightarrow> Q stack' P')
      \<Longrightarrow> Q stack P"
  shows "Q stack P"
proof -
  let ?f = "\<lambda>x. (card ((A \<union> set (fst x)) - set (snd x)), length (fst x))"
  have w: "wf (inv_image (less_than <*lex*> less_than) ?f)"
    by (intro wf_inv_image wf_lex_prod wf_less_than)
  have "Q (fst x) (snd x)" for x
    using w
  proof (induct x rule: wf_induct_rule)
    case (less x)
    show ?case
    proof (rule step)
      fix stack' P'
      assume "card ((A \<union> set stack') - set P') < card ((A \<union> set (fst x)) - set (snd x))
          \<or> (card ((A \<union> set stack') - set P') \<le> card ((A \<union> set (fst x)) - set (snd x))
              \<and> length stack' < length (fst x))"
      then have "((stack', P'), x) \<in> inv_image (less_than <*lex*> less_than) ?f"
        by (auto simp: inv_image_def)
      from less [OF this] show "Q stack' P'" by simp
    qed
  qed
  from this [of "(stack, P)"] show ?thesis by simp
qed

lemma drainRefs_invariant:
  assumes "distinct P"
  shows "\<exists>res. drainRefs ds pre stack P = Some res \<and> distinct res
           \<and> set P \<union> set stack \<subseteq> set res
           \<and> set res \<subseteq> set P \<union> reachableRefs ds pre stack
           \<and> (\<forall>r\<in>set res - set P. \<forall>schema. map_of ds (replace r pre []) = Some schema
                  \<longrightarrow> set (collectRefs schema) \<subseteq> set res)"
  using assms
proof (induction stack P rule: drain_induct [OF finite_allRefs [of ds]])
  case (1 stack P)
  note IH = "1.IH" and dP = "1.prems"
  show ?case
  proof (cases "stack = []")
    case True
    then show ?thesis using dP by (subst drainRefs.simps) simp
  next
    case False
    define r where "r = last stack"
    define remaining where "remaining = butlast stack"
    have stack: "stack = remaining @ [r]"
      using False by (simp add: r_def remaining_def)
    have rin: "r \<in> reachableRefs ds pre stack"
      by (rule reachableRefs.used) (simp add: stack)
    have remsub: "set remaining \<subseteq> reachableRefs ds pre stack"
      using stack by (auto intro: reachableRefs.used)
    show ?thesis
    proof (cases "r \<in> set P")
      case True
      have "card ((allRefs ds \<union> set remaining) - set P) \<le> card ((allRefs ds \<union> set stack) - set P)"
        by (rule card_mono) (auto simp: stack finite_allRefs)
      moreover have "length remaining < length stack" by (simp add: stack)
      ultimately obtain res where res: "drainRefs ds pre remaining P = Some res" "distinct res"
        "set P \<union> set remaining \<subseteq> set res" "set res \<subseteq> set P \<union> reachableRefs ds pre remaining"
        "\<forall>r\<in>set res - set P. \<forall>schema. map_of ds (replace r pre []) = Some schema
                  \<longrightarrow> set (collectRefs schema) \<subseteq> set res"
        using IH [of remaining P] dP by blast
      have eq: "drainRefs ds pre stack P = drainRefs ds pre remaining P"
        using False True by (subst drainRefs.simps) (simp add: r_def remaining_def Let_def)
      have "reachableRefs ds pre remaining \<subseteq> reachableRefs ds pre stack"
        by (rule reachableRefs_mono [OF remsub])
      then show ?thesis using res True eq stack by auto
    next
      case notP: False
      let ?P' = "setAdd P r"
      have P': "set ?P' = insert r (set P)" "distinct ?P'"
        using dP by (simp_all add: set_setAdd distinct_setAdd)
      show ?thesis
      proof (cases "map_of ds (replace r pre [])")
        case None
        have "(allRefs ds \<union> set remaining) - set ?P' \<subset> (allRefs ds \<union> set stack) - set P"
          using notP by (auto simp: P' stack)
        then have "card ((allRefs ds \<union> set remaining) - set ?P') < card ((allRefs ds \<union> set stack) - set P)"
          by (intro psubset_card_mono) (simp_all add: finite_allRefs)
        then obtain res where res: "drainRefs ds pre remaining ?P' = Some res" "distinct res"
          "set ?P' \<union> set remaining \<subseteq> set res" "set res \<subseteq> set ?P' \<union> reachableRefs ds pre remaining"
          "\<forall>r\<in>set res - set ?P'. \<forall>schema. map_of ds (replace r pre []) = Some schema
                  \<longrightarrow> set (collectRefs schema) \<subseteq> set res"
          using IH [of remaining ?P'] P' by blast
        have eq: "drainRefs ds pre stack P = drainRefs ds pre remaining ?P'"
          using False notP None by (subst drainRefs.simps) (simp add: r_def remaining_def Let_def)
        have mono: "reachableRefs ds pre remaining \<subseteq> reachableRefs ds pre stack"
          by (rule reachableRefs_mono [OF remsub])
        have a: "set P \<union> set stack \<subseteq> set res" using res(3) P' stack by auto
        have b: "set res \<subseteq> set P \<union> reachableRefs ds pre stack"
          using res(4) P' mono rin by auto
        have c: "\<forall>x\<in>set res - set P. \<forall>schema. map_of ds (replace x pre []) = Some schema
                  \<longrightarrow> set (collectRefs schema) \<subseteq> set res"
        proof (intro ballI allI impI)
          fix x schema
          assume x: "x \<in> set res - set P" and l: "map_of ds (replace x pre []) = Some schema"
          then have "x \<noteq> r" using None by auto
          then have "x \<in> set res - set ?P'" using x P' by simp
          then show "set (collectRefs schema) \<subseteq> set res" using res(5) l by blast
        qed
        show ?thesis using res(1,2) a b c eq by auto
      next
        case (Some schema)
        let ?stack' = "remaining @ collectRefs schema"
        have sub: "set (collectRefs schema) \<subseteq> allRefs ds"
          by (rule collectRefs_in_allRefs [OF Some])
        have "(allRefs ds \<union> set ?stack') - set ?P' \<subset> (allRefs ds \<union> set stack) - set P"
          using notP sub by (auto simp: P' stack)
        then have "card ((allRefs ds \<union> set ?stack') - set ?P') < card ((allRefs ds \<union> set stack) - set P)"
          by (intro psubset_card_mono) (simp_all add: finite_allRefs)
        then obtain res where res: "drainRefs ds pre ?stack' ?P' = Some res" "distinct res"
          "set ?P' \<union> set ?stack' \<subseteq> set res" "set res \<subseteq> set ?P' \<union> reachableRefs ds pre ?stack'"
          "\<forall>r\<in>set res - set ?P'. \<forall>schema. map_of ds (replace r pre []) = Some schema
                  \<longrightarrow> set (collectRefs schema) \<subseteq> set res"
          using IH [of ?stack' ?P'] P' by blast
        have eq: "drainRefs ds pre stack P = drainRefs ds pre ?stack' ?P'"
          using False notP Some by (subst drainRefs.simps) (simp add: r_def remaining_def Let_def)
        have "set (collectRefs schema) \<subseteq> reachableRefs ds pre stack"
          using rin Some by (auto intro: reachableRefs.step)
        then have "set ?stack' \<subseteq> reachableRefs ds pre stack" using remsub by simp
        then have mono: "reachableRefs ds pre ?stack' \<subseteq> reachableRefs ds pre stack"
          by (rule reachableRefs_mono)
        have a: "set P \<union> set stack \<subseteq> set res" using res(3) P' stack by auto
        have b: "set res \<subseteq> set P \<union> reachableRefs ds pre stack"
          using res(4) P' mono rin by auto
        have c: "\<forall>x\<in>set res - set P. \<forall>schema'. map_of ds (replace x pre []) = Some schema'
                  \<longrightarrow> set (collectRefs schema') \<subseteq> set res"
        proof (intro ballI allI impI)
          fix x schema'
          assume x: "x \<in> set res - set P" and l: "map_of ds (replace x pre []) = Some schema'"
          show "set (collectRefs schema') \<subseteq> set res"
          proof (cases "x = r")
            case True
            then have "schema' = schema" using l Some by simp
            then show ?thesis using res(3) by simp
          next
            case False
            then have "x \<in> set res - set ?P'" using x P' by simp
            then show ?thesis using res(5) l by blast
          qed
        qed
        show ?thesis using res(1,2) a b c eq by auto
      qed
    qed
  qed
qed

lemma drainRefs_closure:
  "\<exists>processedRefs. drainRefs ds pre usedRefs [] = Some processedRefs \<and> distinct processedRefs
      \<and> set processedRefs = reachableRefs ds pre usedRefs"
proof -
  obtain res where res: "drainRefs ds pre usedRefs [] = Some res" "distinct res"
    "set usedRefs \<subseteq> set res" "set res \<subseteq> reachableRefs ds pre usedRefs"
    "\<forall>r\<in>set res. \<forall>schema. map_of ds (replace r pre []) = Some schema
         \<longrightarrow> set (collectRefs schema) \<subseteq> set res"
    using drainRefs_invariant [of "[]" ds pre usedRefs] by auto
  have "r \<in> set res" if "r \<in> reachableRefs ds pre usedRefs" for r
    using that
  proof (induction rule: reachableRefs.induct)
    case (used r)
    then show ?case using res(3) by blast
  next
    case (step r schema r')
    then show ?case using res(5) by blast
  qed
  then have "set res = reachableRefs ds pre usedRefs" using res(4) by blast
  then show ?thesis using res(1,2) by blast
qed

lemma mapPush_keys:
  "distinct (map fst m) \<Longrightarrow> distinct (map fst (mapPush m k v))"
proof (cases "map_of m k = None")
  case True
  assume "distinct (map fst m)"
  moreover from True have "k \<notin> fst ` set m" by (simp add: map_of_eq_None_iff)
  ultimately show ?thesis using True by (simp add: mapPush_def)
next
  case False
  assume d: "distinct (map fst m)"
  have "map fst (map (\<lambda>(k', vs). if k' = k then (k', vs @ [v]) else (k', vs)) m) = map fst m"
    by (induction m) auto
  moreover have "mapPush m k v = map (\<lambda>(k', vs). if k' = k then (k', vs @ [v]) else (k', vs)) m"
    using False by (auto simp: mapPush_def)
  ultimately show ?thesis using d by (simp only:)
qed

lemma push_existing_mset:
  "distinct (map fst m) \<Longrightarrow> k \<in> fst ` set m \<Longrightarrow>
   mset (concat (map snd (map (\<lambda>(k', vs). if k' = k then (k', vs @ [v]) else (k', vs)) m)))
     = mset (concat (map snd m)) + {#v#}"
proof (induction m)
  case Nil
  then show ?case by simp
next
  case (Cons e m)
  obtain k' vs where e: "e = (k', vs)" by (cases e)
  show ?case
  proof (cases "k' = k")
    case True
    then have "k \<notin> fst ` set m" using Cons.prems(1) e by auto
    then have "map (\<lambda>(k', vs). if k' = k then (k', vs @ [v]) else (k', vs)) m = m"
      by (induction m) auto
    then show ?thesis using True e by simp
  next
    case False
    then have "k \<in> fst ` set m" using Cons.prems(2) e by auto
    then show ?thesis using Cons.IH Cons.prems(1) False e by simp
  qed
qed

lemma mapPush_mset:
  "distinct (map fst m) \<Longrightarrow>
   mset (concat (map snd (mapPush m k v))) = mset (concat (map snd m)) + {#v#}"
proof (cases "map_of m k = None")
  case True
  then show ?thesis by (simp add: mapPush_def)
next
  case False
  assume d: "distinct (map fst m)"
  from False have "k \<in> fst ` set m" by (simp add: map_of_eq_None_iff)
  from push_existing_mset [OF d this] show ?thesis using False by (simp add: mapPush_def)
qed

lemma mapPush_module:
  assumes "\<forall>entry\<in>set m. \<forall>t\<in>set (snd entry). g t = fst entry" and "g v = k"
  shows "\<forall>entry\<in>set (mapPush m k v). \<forall>t\<in>set (snd entry). g t = fst entry"
proof (cases "map_of m k = None")
  case True
  then show ?thesis using assms by (auto simp: mapPush_def)
next
  case False
  then show ?thesis using assms by (auto simp: mapPush_def split: if_splits)
qed

lemma originalName_resolvedType:
  "resolvedType ds pre config r = Some t \<Longrightarrow> originalName t = replace r pre []"
  by (auto simp: resolvedType_def parseType_def split: option.splits)

lemma resolveStep_resolved:
  "resolveStep ds pre config types r =
     (case resolvedType ds pre config r of
        None \<Rightarrow> types
      | Some t \<Rightarrow> mapPush types (getModuleFromTypeName (originalName t)) t)"
  by (simp add: resolveStep_def resolvedType_def parseType_def Let_def split: option.splits)

lemma resolveTypes_fold:
  assumes "distinct (map fst types)"
    and "\<forall>entry\<in>set types. \<forall>t\<in>set (snd entry). getModuleFromTypeName (originalName t) = fst entry"
  shows "mset (concat (map snd (foldl (resolveStep ds pre config) types rs)))
         = mset (concat (map snd types)) + mset (List.map_filter (resolvedType ds pre config) rs)
       \<and> distinct (map fst (foldl (resolveStep ds pre config) types rs))
       \<and> (\<forall>entry\<in>set (foldl (resolveStep ds pre config) types rs).
            \<forall>t\<in>set (snd entry). getModuleFromTypeName (originalName t) = fst entry)"
  using assms
proof (induction rs arbitrary: types)
  case Nil
  then show ?case by (simp add: List.map_filter_simps)
next
  case (Cons r rs)
  show ?case
  proof (cases "resolvedType ds pre config r")
    case None
    then have s: "resolveStep ds pre config types r = types" by (simp add: resolveStep_resolved)
    have f: "List.map_filter (resolvedType ds pre config) (r # rs)
        = List.map_filter (resolvedType ds pre config) rs"
      using None by (simp add: List.map_filter_simps)
    show ?thesis
      unfolding foldl_Cons s f by (rule Cons.IH [OF Cons.prems])
  next
    case (Some t)
    let ?types' = "mapPush types (getModuleFromTypeName (originalName t)) t"
    have s: "resolveStep ds pre config types r = ?types'"
      using Some by (simp add: resolveStep_resolved)
    have f: "List.map_filter (resolvedType ds pre config) (r # rs)
        = t # List.map_filter (resolvedType ds pre config) rs"
      using Some by (simp add: List.map_filter_simps)
    have d: "distinct (map fst ?types')" by (rule mapPush_keys [OF Cons.prems(1)])
    have m: "\<forall>entry\<in>set ?types'. \<forall>u\<in>set (snd entry). getModuleFromTypeName (originalName u) = fst entry"
      by (rule mapPush_module [OF Cons.prems(2)]) simp
    have ms: "mset (concat (map snd ?types')) = mset (concat (map snd types)) + {#t#}"
      by (rule mapPush_mset [OF Cons.prems(1)])
    from Cons.IH [OF d m] show ?thesis
      unfolding foldl_Cons s f ms by simp
  qed
qed

lemma resolveTypes_once:
  "mset (concat (map snd (resolveTypes ds pre config rs)))
     = mset (List.map_filter (resolvedType ds pre config) rs)
   \<and> distinct (map fst (resolveTypes ds pre config rs))
   \<and> (\<forall>entry\<in>set (resolveTypes ds pre config rs).
         \<forall>t\<in>set (snd entry). getModuleFromTypeName (originalName t) = fst entry)"
  unfolding resolveTypes_def
  using resolveTypes_fold [where types = "[]" and ds = ds and pre = pre and config = config and rs = rs]
  by simp

lemma parseSwagger2_returns: "\<exists>result. parseSwagger2 spec config mapping = Some result"
proof -
  obtain apis usedRefs where p: "parseApis spec config mapping = (apis, usedRefs)"
    by (cases "parseApis spec config mapping")
  show ?thesis
  proof (cases "spec_definitions spec")
    case None
    then show ?thesis using p by (simp add: parseSwagger2_def)
  next
    case (Some ds)
    obtain processedRefs where "drainRefs ds ''#/definitions/'' usedRefs [] = Some processedRefs"
      using drainRefs_closure [of ds "''#/definitions/''" usedRefs] by blast
    then show ?thesis using p Some by (simp add: parseSwagger2_def)
  qed
qed

text \<open>
  C4. For every definitions table and every list of used references the drain returns.
  The references it has processed are pairwise different and are exactly the references
  that can be reached from the used ones, so each of them is processed once. Every
  processed reference that the table defines gives one parsed type, entered once, in the
  list of its module; and \<^verbatim>\<open>parseSwagger2\<close> as a whole returns.
\<close>

theorem drainRefs_terminates_once:
  "\<exists>processedRefs.
     drainRefs definitions refPrefix usedRefs [] = Some processedRefs \<and>
     distinct processedRefs \<and>
     set processedRefs = reachableRefs definitions refPrefix usedRefs \<and>
     mset (concat (map snd (resolveTypes definitions refPrefix config processedRefs)))
       = mset (List.map_filter (resolvedType definitions refPrefix config) processedRefs) \<and>
     distinct (map fst (resolveTypes definitions refPrefix config processedRefs)) \<and>
     (\<forall>entry\<in>set (resolveTypes definitions refPrefix config processedRefs).
        \<forall>t\<in>set (snd entry). getModuleFromTypeName (originalName t) = fst entry) \<and>
     (\<exists>result. parseSwagger2 spec config mapping = Some result)"
proof -
  obtain processedRefs where d: "drainRefs definitions refPrefix usedRefs [] = Some processedRefs"
      "distinct processedRefs" "set processedRefs = reachableRefs definitions refPrefix usedRefs"
    using drainRefs_closure [of definitions refPrefix usedRefs] by blast
  show ?thesis
    using d resolveTypes_once [of definitions refPrefix config processedRefs]
      parseSwagger2_returns [of spec config mapping]
    by blast
qed

theorem drainRefs_terminates_once_witness:
  "(\<exists>processedRefs.
     drainRefs cyclicDefinitions ''#/definitions/'' [''#/definitions/Author''] [] = Some processedRefs \<and>
     distinct processedRefs \<and>
     set processedRefs = reachableRefs cyclicDefinitions ''#/definitions/'' [''#/definitions/Author''] \<and>
     mset (concat (map snd (resolveTypes cyclicDefinitions ''#/definitions/'' defaultConfig processedRefs)))
       = mset (List.map_filter (resolvedType cyclicDefinitions ''#/definitions/'' defaultConfig) processedRefs) \<and>
     distinct (map fst (resolveTypes cyclicDefinitions ''#/definitions/'' defaultConfig processedRefs)) \<and>
     (\<forall>entry\<in>set (resolveTypes cyclicDefinitions ''#/definitions/'' defaultConfig processedRefs).
        \<forall>t\<in>set (snd entry). getModuleFromTypeName (originalName t) = fst entry) \<and>
     (\<exists>result. parseSwagger2 cyclicSpec defaultConfig [] = Some result)) \<and>
   drainRefs cyclicDefinitions ''#/definitions/'' [''#/definitions/Author''] []
     = Some [''#/definitions/Author'', ''#/definitions/Book''] \<and>
   map_option (\<lambda>result. map (\<lambda>entry. (fst entry, map originalName (snd entry))) (snd result))
       (parseSwagger2 cyclicSpec defaultConfig [])
     = Some [(''common'', [''Author'', ''Book''])]"
proof -
  have a: "drainRefs cyclicDefinitions ''#/definitions/'' [''#/definitions/Author''] []
     = Some [''#/definitions/Author'', ''#/definitions/Book'']"
    by code_simp
  have b: "map_option (\<lambda>result. map (\<lambda>entry. (fst entry, map originalName (snd entry))) (snd result))
       (parseSwagger2 cyclicSpec defaultConfig [])
     = Some [(''common'', [''Author'', ''Book''])]"
    by code_simp
  note t = drainRefs_terminates_once
    [of cyclicDefinitions "''#/definitions/''" "[''#/definitions/Author'']" defaultConfig cyclicSpec "[]"]
  show ?thesis by (intro conjI t a b)
qed


section \<open>Unwrapping the response envelope\<close>

lemma parseOperation_response:
  "\<exists>usedRefs1. api_responseTypeName (fst (parseOperation pth method operation config usedRefs ds mapping))
     = fst (snd (parseResponse operation config usedRefs1 ds))"
proof -
  obtain pathParams queryParams bodySchema bodyTypeName usedRefs1
    where f: "foldl (parameterStep config) ([], [], None, None, usedRefs)
                (case op_parameters operation of Some ps \<Rightarrow> ps | None \<Rightarrow> [])
              = (pathParams, queryParams, bodySchema, bodyTypeName, usedRefs1)"
    by (metis prod_cases5)
  obtain responseSchema responseTypeName usedRefs2
    where r: "parseResponse operation config usedRefs1 ds = (responseSchema, responseTypeName, usedRefs2)"
    by (metis prod_cases3)
  have "api_responseTypeName (fst (parseOperation pth method operation config usedRefs ds mapping))
      = responseTypeName"
    by (simp add: parseOperation_def Let_def f r)
  then show ?thesis using r by (intro exI [of _ usedRefs1]) simp
qed

lemma parseResponse_ref:
  assumes "successResponse operation = Some response"
    and "response_schema response = Some responseSchema"
    and "allOf responseSchema = None"
    and "ref responseSchema = Some envelopeRef" and "envelopeRef \<noteq> []"
  shows "fst (snd (parseResponse operation config usedRefs ds))
       = (if truthy (unwrapResponseField config)
          then fst (extractUnwrappedType envelopeRef (the (unwrapResponseField config)) ds config
                      (setAdd usedRefs envelopeRef))
          else Some (cleanTypeName (replace envelopeRef ''#/definitions/'' []) (typeNameSuffixFilter config)))"
  using assms by (simp add: parseResponse_def Let_def truthy_def split: prod.splits)

lemma extractUnwrappedType_field:
  assumes "map_of ds (replace envelopeRef ''#/definitions/'' []) = Some envelope"
    and "propertyOf envelope field = Some fieldSchema"
  shows "fst (extractUnwrappedType envelopeRef field ds config usedRefs)
       = (if truthy (ref fieldSchema)
          then Some (cleanTypeName (replace (the (ref fieldSchema)) ''#/definitions/'' [])
                       (typeNameSuffixFilter config))
          else if type fieldSchema = Some ''array''
                  \<and> (case items fieldSchema of Some item \<Rightarrow> truthy (ref item) | None \<Rightarrow> False)
          then Some (cleanTypeName (replace (the (ref (the (items fieldSchema)))) ''#/definitions/'' [])
                       (typeNameSuffixFilter config) @ ''[]'')
          else Some (schemaTypeToTs fieldSchema))"
  using assms by (simp add: extractUnwrappedType_def Let_def)

text \<open>
  C5. The success response of the operation is a reference to an envelope that the table
  defines and that has the unwrap field among its properties. With the unwrap field
  configured, the response type name is the cleaned name of the type the field refers
  to, or that of the referred item followed by \<^verbatim>\<open>[]\<close> when the field is an array of a
  referred item. With unwrapping disabled it is the cleaned name of the envelope.
\<close>

theorem parseOperation_unwraps_envelope:
  assumes "successResponse operation = Some response"
    and "response_schema response = Some responseSchema"
    and "allOf responseSchema = None"
    and "ref responseSchema = Some envelopeRef" and "envelopeRef \<noteq> []"
    and "map_of definitions (replace envelopeRef ''#/definitions/'' []) = Some envelope"
    and "propertyOf envelope field = Some fieldSchema" and "field \<noteq> []"
  shows "(unwrapResponseField config = Some field \<and> ref fieldSchema = Some userRef \<and> userRef \<noteq> [] \<longrightarrow>
            api_responseTypeName (fst (parseOperation pth method operation config usedRefs definitions mapping))
              = Some (cleanTypeName (replace userRef ''#/definitions/'' []) (typeNameSuffixFilter config))) \<and>
         (unwrapResponseField config = None \<longrightarrow>
            api_responseTypeName (fst (parseOperation pth method operation config usedRefs definitions mapping))
              = Some (cleanTypeName (replace envelopeRef ''#/definitions/'' []) (typeNameSuffixFilter config))) \<and>
         (unwrapResponseField config = Some field \<and> \<not> truthy (ref fieldSchema) \<and>
          type fieldSchema = Some ''array'' \<and> items fieldSchema = Some item \<and>
          ref item = Some itemRef \<and> itemRef \<noteq> [] \<longrightarrow>
            api_responseTypeName (fst (parseOperation pth method operation config usedRefs definitions mapping))
              = Some (cleanTypeName (replace itemRef ''#/definitions/'' []) (typeNameSuffixFilter config)
                        @ ''[]''))"
proof -
  obtain usedRefs1 where
    p: "api_responseTypeName (fst (parseOperation pth method operation config usedRefs definitions mapping))
        = fst (snd (parseResponse operation config usedRefs1 definitions))"
    using parseOperation_response by blast
  note r = parseResponse_ref [OF assms(1-5), of config usedRefs1 definitions]
  note e = extractUnwrappedType_field [OF assms(6,7), of config "setAdd usedRefs1 envelopeRef"]
  show ?thesis
  proof (intro conjI impI)
    assume "unwrapResponseField config = Some field \<and> ref fieldSchema = Some userRef \<and> userRef \<noteq> []"
    then show "api_responseTypeName (fst (parseOperation pth method operation config usedRefs definitions mapping))
              = Some (cleanTypeName (replace userRef ''#/definitions/'' []) (typeNameSuffixFilter config))"
      using assms(8) by (simp add: p r e truthy_def)
  next
    assume "unwrapResponseField config = None"
    then show "api_responseTypeName (fst (parseOperation pth method operation config usedRefs definitions mapping))
              = Some (cleanTypeName (replace envelopeRef ''#/definitions/'' []) (typeNameSuffixFilter config))"
      by (simp add: p r truthy_def)
  next
    assume "unwrapResponseField config = Some field \<and> \<not> truthy (ref fieldSchema) \<and>
          type fieldSchema = Some ''array'' \<and> items fieldSchema = Some item \<and>
          ref item = Some itemRef \<and> itemRef \<noteq> []"
    then show "api_responseTypeName (fst (parseOperation pth method operation config usedRefs definitions mapping))
              = Some (cleanTypeName (replace itemRef ''#/definitions/'' []) (typeNameSuffixFilter config)
                        @ ''[]'')"
      using assms(8) by (simp add: p r e truthy_def)
  qed
qed

theorem parseOperation_unwraps_envelope_witness:
  "api_responseTypeName (fst (parseOperation ''/api/users/{id}'' ''get''
       (envelopeOperation ''#/definitions/response.UserEnvelope'') defaultConfig [] envelopeDefinitions []))
     = Some ''User'' \<and>
   api_responseTypeName (fst (parseOperation ''/api/users/{id}'' ''get''
       (envelopeOperation ''#/definitions/response.UserEnvelope'')
       (defaultConfig\<lparr>unwrapResponseField := None\<rparr>) [] envelopeDefinitions []))
     = Some ''UserEnvelope'' \<and>
   api_responseTypeName (fst (parseOperation ''/api/users'' ''get''
       (envelopeOperation ''#/definitions/response.UserListEnvelope'') defaultConfig [] envelopeDefinitions []))
     = Some ''User[]''"
proof -
  let ?userRef = "''#/definitions/model.User''"
  let ?one = "''#/definitions/response.UserEnvelope''"
  let ?many = "''#/definitions/response.UserListEnvelope''"
  have h1: "successResponse (envelopeOperation r) = Some (okResponse r)" for r
    by (simp add: successResponse_def envelopeOperation_def)
  have h2: "response_schema (okResponse r) = Some (refSchema r)" for r
    by (simp add: okResponse_def)
  have h3: "allOf (refSchema r) = None" and h4: "ref (refSchema r) = Some r" for r
    by (simp_all add: refSchema_def)
  have n1: "?one \<noteq> []" and n2: "?many \<noteq> []" and n3: "''data'' \<noteq> []"
    by simp_all
  have l1: "map_of envelopeDefinitions (replace ?one ''#/definitions/'' [])
      = Some (envelopeSchema (refSchema ?userRef))"
    by code_simp
  have l2: "map_of envelopeDefinitions (replace ?many ''#/definitions/'' [])
      = Some (envelopeSchema (arraySchema (refSchema ?userRef)))"
    by code_simp
  have f: "propertyOf (envelopeSchema d) ''data'' = Some d" for d
    by (simp add: propertyOf_def envelopeSchema_def objectSchema_def)
  have c: "cleanTypeName (replace ?userRef ''#/definitions/'' []) (typeNameSuffixFilter defaultConfig) = ''User''"
    "cleanTypeName (replace ?one ''#/definitions/'' []) (typeNameSuffixFilter defaultConfig) = ''UserEnvelope''"
    by code_simp+
  have u: "unwrapResponseField defaultConfig = Some ''data''"
    "typeNameSuffixFilter (defaultConfig\<lparr>unwrapResponseField := None\<rparr>) = typeNameSuffixFilter defaultConfig"
    by (simp_all add: defaultConfig_def)
  note t1 = parseOperation_unwraps_envelope [OF h1 h2 h3 h4 n1 l1 f n3]
  note t2 = parseOperation_unwraps_envelope [OF h1 h2 h3 h4 n2 l2 f n3]
  have a: "api_responseTypeName (fst (parseOperation ''/api/users/{id}'' ''get''
       (envelopeOperation ?one) defaultConfig [] envelopeDefinitions [])) = Some ''User''"
    using t1 [of defaultConfig ?userRef "''/api/users/{id}''" "''get''" "[]" "[]", THEN conjunct1] u c
    by (simp add: refSchema_def)
  have b: "api_responseTypeName (fst (parseOperation ''/api/users/{id}'' ''get''
       (envelopeOperation ?one) (defaultConfig\<lparr>unwrapResponseField := None\<rparr>) [] envelopeDefinitions []))
     = Some ''UserEnvelope''"
    using t1 [of "defaultConfig\<lparr>unwrapResponseField := None\<rparr>" ?userRef "''/api/users/{id}''" "''get''" "[]" "[]",
        THEN conjunct2, THEN conjunct1] u c
    by simp
  have d: "api_responseTypeName (fst (parseOperation ''/api/users'' ''get''
       (envelopeOperation ?many) defaultConfig [] envelopeDefinitions [])) = Some ''User[]''"
    using t2 [of defaultConfig "[]" "''/api/users''" "''get''" "[]" "[]" "refSchema ?userRef" ?userRef,
        THEN conjunct2, THEN conjunct2] u c
    by (simp add: refSchema_def arraySchema_def truthy_def)
  show ?thesis by (intro conjI a b d)
qed


end
